theory Spec2Isabelle
  imports Complex_Main "HOL-Library.Word" "HOL-Library.Extended_Nat" "HOL-Library.Sublist"
begin

unbundle bit_operations_syntax

section \<open>Content-addressed chunked blob upload (StorageClient)\<close>

text \<open>
  A shallow embedding of the upload core of the StorageClient module: the digest value
  \<open>YHash\<close>, the Merkle tree builder \<open>BlobHashTree.build\<close>, the chunker
  \<open>createFileChunks\<close>, the worker pool \<open>parallelUpload\<close> and the orchestrator
  \<open>putFile\<close>.

  Conventions. A JavaScript string is a \<open>string\<close> whose characters stand for the code units
  below 256. A \<open>Uint8Array\<close> is a list of 8-bit words. Every \<open>throw\<close> of the source is a
  value \<open>Inl e\<close> of the result type \<open>error + 'a\<close>. The platform digest
  \<open>crypto.subtle.digest('SHA-256', _)\<close> is not code of the module: the functions that
  use it take it as the parameter \<open>H\<close>, and the closed examples apply them to \<open>sha256\<close>,
  SHA-256 as FIPS 180-4 defines it.
\<close>

subsection \<open>Errors\<close>

datatype error =
    InvalidDigestLength nat   \<comment> \<open>\<open>YHash must be exactly 32 bytes, got n\<close>\<close>
  | ToStringNotSupported      \<comment> \<open>\<open>toString is not supported for YHash\<close>\<close>
  | TypeError                 \<comment> \<open>a method call on \<open>null\<close>\<close>
  | EmptyChunks               \<comment> \<open>\<open>Cannot build hash tree from empty chunks\<close>\<close>
  | PathRequired              \<comment> \<open>\<open>Path is required\<close>\<close>
  | PathEmpty                 \<comment> \<open>\<open>Path must not be empty\<close>\<close>
  | BlobTreeUploadFailed      \<comment> \<open>\<open>Failed to upload blob tree: ...\<close>\<close>
  | ChunkUploadFailed nat     \<comment> \<open>\<open>Failed to upload chunk i: ...\<close>\<close>
  | ActorRejected             \<comment> \<open>a rejected call of the backend actor\<close>

subsection \<open>YHash\<close>

type_synonym byte = "8 word"

datatype YHash = YHash (bytes: "byte list")

text \<open>The constructor: \<open>if (bytes.length !== 32) throw ...\<close>.\<close>

definition new_YHash :: "byte list \<Rightarrow> error + YHash" where
  "new_YHash bs =
     (if length bs \<noteq> 32 then Inl (InvalidDigestLength (length bs)) else Inr (YHash bs))"

definition fromBytes :: "(byte list \<Rightarrow> byte list) \<Rightarrow> byte list \<Rightarrow> error + YHash" where
  "fromBytes H data = new_YHash (H data)"

subsubsection \<open>\<open>toHex\<close>, \<open>toShaString\<close>, \<open>toString\<close>\<close>

definition hex_digit :: "nat \<Rightarrow> char" where
  "hex_digit d = ''0123456789abcdef'' ! d"

text \<open>\<open>Number.prototype.toString(16)\<close> on a natural number: no leading zero, \<open>0\<close> is \<open>"0"\<close>.\<close>

fun toString16 :: "nat \<Rightarrow> string" where
  "toString16 n = (if n < 16 then [hex_digit n] else toString16 (n div 16) @ [hex_digit (n mod 16)])"

declare toString16.simps [simp del]

definition padStart :: "nat \<Rightarrow> char \<Rightarrow> string \<Rightarrow> string" where
  "padStart k c s = replicate (k - length s) c @ s"

definition toHex :: "YHash \<Rightarrow> string" where
  "toHex h = concat (map (\<lambda>b. padStart 2 (CHR ''0'') (toString16 (unat b))) (bytes h))"

definition toShaString :: "YHash \<Rightarrow> string" where
  "toShaString h = ''sha256:'' @ toHex h"

definition toString_YHash :: "YHash \<Rightarrow> error + string" where
  "toString_YHash h = Inl ToStringNotSupported"

subsubsection \<open>\<open>fromHex\<close>, \<open>fromShaString\<close>\<close>

text \<open>
  \<open>String.prototype.replace(pattern, '')\<close> with a string pattern: the first occurrence of
  the pattern, wherever it is, is removed; a string without the pattern is unchanged.
\<close>

fun replace_first :: "string \<Rightarrow> string \<Rightarrow> string" where
  "replace_first pat [] = []"
| "replace_first pat (c # cs) =
     (if take (length pat) (c # cs) = pat then drop (length pat) (c # cs)
      else c # replace_first pat cs)"

text \<open>
  \<open>hexString.match(/.{1,2}/g)\<close>: the matches from left to right, each one or two characters
  long, as long as possible; \<open>.\<close> does not match a line terminator (line feed, carriage
  return). The result is \<open>null\<close> when there is no match.
\<close>

definition isLineTerminator :: "char \<Rightarrow> bool" where
  "isLineTerminator c = (c = CHR 0x0A \<or> c = CHR 0x0D)"

fun match_groups :: "string \<Rightarrow> string list" where
  "match_groups [] = []"
| "match_groups [c] = (if isLineTerminator c then [] else [[c]])"
| "match_groups (c # d # cs) =
     (if isLineTerminator c then match_groups (d # cs)
      else if isLineTerminator d then [c] # match_groups cs
      else [c, d] # match_groups cs)"

definition match_pairs :: "string \<Rightarrow> string list option" where
  "match_pairs s = (case match_groups s of [] \<Rightarrow> None | g # gs \<Rightarrow> Some (g # gs))"

text \<open>
  \<open>parseInt(s, 16)\<close>: leading white space is dropped, then one sign, then one \<open>0x\<close> or
  \<open>0X\<close>; the longest run of hexadecimal digits that follows is the value, and there is no
  value (\<open>NaN\<close>, here \<open>None\<close>) when that run is empty.
\<close>

definition isWhiteSpace :: "char \<Rightarrow> bool" where
  "isWhiteSpace c = (c \<in> set [CHR 0x09, CHR 0x0A, CHR 0x0B, CHR 0x0C, CHR 0x0D, CHR 0x20, CHR 0xA0])"

definition hex_value :: "char \<Rightarrow> nat option" where
  "hex_value c =
     (let n = of_char c :: nat in
      if 48 \<le> n \<and> n \<le> 57 then Some (n - 48)
      else if 97 \<le> n \<and> n \<le> 102 then Some (n - 87)
      else if 65 \<le> n \<and> n \<le> 70 then Some (n - 55)
      else None)"

fun hex_run :: "string \<Rightarrow> nat list" where
  "hex_run [] = []"
| "hex_run (c # cs) = (case hex_value c of None \<Rightarrow> [] | Some v \<Rightarrow> v # hex_run cs)"

definition strip_sign :: "string \<Rightarrow> int \<times> string" where
  "strip_sign s =
     (case s of
        [] \<Rightarrow> (1, [])
      | c # cs \<Rightarrow> if c = CHR ''-'' then (- 1, cs) else if c = CHR ''+'' then (1, cs) else (1, c # cs))"

definition strip_0x :: "string \<Rightarrow> string" where
  "strip_0x s =
     (if take 2 s = ''0x'' \<or> take 2 s = ''0X'' then drop 2 s else s)"

definition parseInt16 :: "string \<Rightarrow> int option" where
  "parseInt16 s =
     (let (sign, t) = strip_sign (dropWhile isWhiteSpace s);
          ds = hex_run (strip_0x t)
      in if ds = [] then None else Some (sign * int (foldl (\<lambda>a d. a * 16 + d) 0 ds)))"

text \<open>
  \<open>new Uint8Array(numbers)\<close>: every number is converted by \<open>ToUint8\<close>, which takes \<open>NaN\<close>
  to 0 and an integer to its residue modulo 256.
\<close>

definition toUint8 :: "int option \<Rightarrow> byte" where
  "toUint8 v = (case v of None \<Rightarrow> 0 | Some n \<Rightarrow> word_of_int n)"

definition fromHex :: "string \<Rightarrow> error + YHash" where
  "fromHex hexString =
     (case match_pairs hexString of
        None \<Rightarrow> Inl TypeError
      | Some gs \<Rightarrow> new_YHash (map (\<lambda>g. toUint8 (parseInt16 g)) gs))"

definition fromShaString :: "string \<Rightarrow> error + YHash" where
  "fromShaString s = fromHex (replace_first ''sha256:'' s)"

subsection \<open>BlobHashTree\<close>

datatype TreeNode = TreeNode (hash: YHash) (left: "TreeNode option") (right: "TreeNode option")

datatype tree_type = BMT

record BlobHashTree =
  tree_type :: tree_type
  chunk_hashes :: "YHash list"
  tree :: TreeNode

text \<open>\<open>new TextEncoder().encode('UNBALANCED')\<close>: the ten ASCII codes of the word.\<close>

definition UNBALANCED :: "byte list" where
  "UNBALANCED = map (\<lambda>c. of_nat (of_char c)) ''UNBALANCED''"

text \<open>
  The body of the \<open>for\<close> loop of \<open>build\<close>: the parent of \<open>left\<close> and of \<open>right\<close>, which is
  \<open>null\<close> for the last node of a level of odd length.
\<close>

definition parent :: "(byte list \<Rightarrow> byte list) \<Rightarrow> TreeNode \<Rightarrow> TreeNode option \<Rightarrow> error + TreeNode" where
  "parent H l r =
     (let rightBytes = (case r of None \<Rightarrow> UNBALANCED | Some n \<Rightarrow> bytes (hash n));
          combined = bytes (hash l) @ rightBytes
      in case fromBytes H combined of
           Inl e \<Rightarrow> Inl e
         | Inr parentHash \<Rightarrow> Inr (TreeNode parentHash (Some l) r))"

text \<open>The \<open>for\<close> loop: \<open>index\<close> runs over the level in steps of two and fills \<open>nextLevel\<close>.\<close>

fun nextLevel :: "(byte list \<Rightarrow> byte list) \<Rightarrow> TreeNode list \<Rightarrow> error + TreeNode list" where
  "nextLevel H [] = Inr []"
| "nextLevel H [l] = (case parent H l None of Inl e \<Rightarrow> Inl e | Inr p \<Rightarrow> Inr [p])"
| "nextLevel H (l # r # rest) =
     (case parent H l (Some r) of
        Inl e \<Rightarrow> Inl e
      | Inr p \<Rightarrow> (case nextLevel H rest of Inl e \<Rightarrow> Inl e | Inr ps \<Rightarrow> Inr (p # ps)))"

text \<open>The \<open>while (level.length > 1)\<close> loop.\<close>

function build_loop :: "(byte list \<Rightarrow> byte list) \<Rightarrow> TreeNode list \<Rightarrow> error + TreeNode list" where
  "build_loop H level =
     (if length level > 1
      then (case nextLevel H level of Inl e \<Rightarrow> Inl e | Inr level' \<Rightarrow> build_loop H level')
      else Inr level)"
  by pat_completeness auto
termination
proof (relation "measure (\<lambda>(H, level). length level)")
  show "wf (measure (\<lambda>(H, level). length level))" by simp
next
  fix H :: "byte list \<Rightarrow> byte list" and level level' :: "TreeNode list"
  have shorter: "nextLevel H xs = Inr ys \<Longrightarrow> length ys = (length xs + 1) div 2" for xs ys
    by (induction H xs arbitrary: ys rule: nextLevel.induct) (auto split: sum.splits)
  assume "1 < length level" and "nextLevel H level = Inr level'"
  with shorter [of level level'] show "((H, level'), (H, level)) \<in> measure (\<lambda>(H, level). length level)"
    by simp
qed

declare build_loop.simps [simp del]

definition build :: "(byte list \<Rightarrow> byte list) \<Rightarrow> YHash list \<Rightarrow> error + BlobHashTree" where
  "build H chunkHashes =
     (if length chunkHashes = 0 then Inl EmptyChunks
      else case build_loop H (map (\<lambda>h. TreeNode h None None) chunkHashes) of
             Inl e \<Rightarrow> Inl e
           | Inr level \<Rightarrow> Inr \<lparr>tree_type = BMT, chunk_hashes = chunkHashes, tree = level ! 0\<rparr>)"

subsection \<open>SHA-256\<close>

text \<open>
  The digest that \<open>crypto.subtle.digest('SHA-256', _)\<close> computes (FIPS 180-4), for closed
  examples. A 32-bit word is a natural number below \<open>2 ^ 32\<close>; additions are reduced modulo
  \<open>2 ^ 32\<close>. \<open>K256\<close> holds the 64 round constants of the standard, in decimal, and
  \<open>H256\<close> the initial hash value. The digests computed below (of the bytes 1, 2, 3 among
  them) agree with the published ones.
\<close>

definition K256 :: "nat list" where
  "K256 =
     [1116352408, 1899447441, 3049323471, 3921009573, 961987163, 1508970993,
      2453635748, 2870763221, 3624381080, 310598401, 607225278, 1426881987,
      1925078388, 2162078206, 2614888103, 3248222580, 3835390401, 4022224774,
      264347078, 604807628, 770255983, 1249150122, 1555081692, 1996064986,
      2554220882, 2821834349, 2952996808, 3210313671, 3336571891, 3584528711,
      113926993, 338241895, 666307205, 773529912, 1294757372, 1396182291,
      1695183700, 1986661051, 2177026350, 2456956037, 2730485921, 2820302411,
      3259730800, 3345764771, 3516065817, 3600352804, 4094571909, 275423344,
      430227734, 506948616, 659060556, 883997877, 958139571, 1322822218,
      1537002063, 1747873779, 1955562222, 2024104815, 2227730452, 2361852424,
      2428436474, 2756734187, 3204031479, 3329325298]"

definition H256 :: "nat list" where
  "H256 =
     [0x6a09e667, 0xbb67ae85, 0x3c6ef372, 0xa54ff53a, 0x510e527f, 0x9b05688c,
      0x1f83d9ab, 0x5be0cd19]"

definition add32 :: "nat \<Rightarrow> nat \<Rightarrow> nat" where
  "add32 x y = (x + y) mod 2 ^ 32"

definition rotr :: "nat \<Rightarrow> nat \<Rightarrow> nat" where
  "rotr n x = x div 2 ^ n + (x mod 2 ^ n) * 2 ^ (32 - n)"

definition Ch :: "nat \<Rightarrow> nat \<Rightarrow> nat \<Rightarrow> nat" where
  "Ch x y z = (x AND y) XOR ((2 ^ 32 - 1 - x) AND z)"

definition Maj :: "nat \<Rightarrow> nat \<Rightarrow> nat \<Rightarrow> nat" where
  "Maj x y z = (x AND y) XOR (x AND z) XOR (y AND z)"

definition Sigma0 :: "nat \<Rightarrow> nat" where
  "Sigma0 x = rotr 2 x XOR rotr 13 x XOR rotr 22 x"

definition Sigma1 :: "nat \<Rightarrow> nat" where
  "Sigma1 x = rotr 6 x XOR rotr 11 x XOR rotr 25 x"

definition sigma0 :: "nat \<Rightarrow> nat" where
  "sigma0 x = rotr 7 x XOR rotr 18 x XOR x div 2 ^ 3"

definition sigma1 :: "nat \<Rightarrow> nat" where
  "sigma1 x = rotr 17 x XOR rotr 19 x XOR x div 2 ^ 10"

text \<open>Padding: the byte 0x80, zero bytes up to 56 modulo 64, the length in bits as 8 bytes.\<close>

definition length_bytes :: "nat \<Rightarrow> byte list" where
  "length_bytes n =
     [of_nat (n div 2 ^ 56), of_nat (n div 2 ^ 48), of_nat (n div 2 ^ 40), of_nat (n div 2 ^ 32),
      of_nat (n div 2 ^ 24), of_nat (n div 2 ^ 16), of_nat (n div 2 ^ 8), of_nat n]"

definition pad :: "byte list \<Rightarrow> byte list" where
  "pad m = m @ [0x80] @ replicate ((119 - length m mod 64) mod 64) 0 @ length_bytes (8 * length m)"

fun words_of :: "byte list \<Rightarrow> nat list" where
  "words_of (a # b # c # d # bs) =
     (unat a * 2 ^ 24 + unat b * 2 ^ 16 + unat c * 2 ^ 8 + unat d) # words_of bs"
| "words_of bs = []"

definition bytes_of :: "nat \<Rightarrow> byte list" where
  "bytes_of w = [of_nat (w div 2 ^ 24), of_nat (w div 2 ^ 16), of_nat (w div 2 ^ 8), of_nat w]"

text \<open>The message schedule, newest word first: \<open>k\<close> more words in front of \<open>ws\<close>.\<close>

fun message_schedule :: "nat \<Rightarrow> nat list \<Rightarrow> nat list" where
  "message_schedule 0 ws = ws"
| "message_schedule (Suc k) ws =
     message_schedule k (add32 (add32 (add32 (sigma1 (ws ! 1)) (ws ! 6)) (sigma0 (ws ! 14))) (ws ! 15) # ws)"

definition next_state :: "nat \<Rightarrow> nat \<Rightarrow> nat list \<Rightarrow> nat list" where
  "next_state t1 t2 s =
     (case s of
        [a, b, c, d, e, f, g, h] \<Rightarrow> [add32 t1 t2, a, b, c, add32 d t1, e, f, g]
      | _ \<Rightarrow> s)"

fun round256 :: "nat list \<Rightarrow> nat \<times> nat \<Rightarrow> nat list" where
  "round256 [a, b, c, d, e, f, g, h] (k, w) =
     next_state (add32 (add32 (add32 (add32 h (Sigma1 e)) (Ch e f g)) k) w)
       (add32 (Sigma0 a) (Maj a b c)) [a, b, c, d, e, f, g, h]"
| "round256 s kw = s"

definition compress :: "nat list \<Rightarrow> nat list \<Rightarrow> nat list" where
  "compress hs block =
     map2 add32 hs (foldl round256 hs (zip K256 (rev (message_schedule 48 (rev block)))))"

function process :: "nat list \<Rightarrow> byte list \<Rightarrow> nat list" where
  "process hs bs =
     (if bs = [] then hs else process (compress hs (words_of (take 64 bs))) (drop 64 bs))"
  by pat_completeness auto
termination
  by (relation "measure (\<lambda>(hs, bs). length bs)") auto

declare process.simps [simp del]

definition sha256 :: "byte list \<Rightarrow> byte list" where
  "sha256 m = concat (map bytes_of (process H256 (pad m)))"

subsection \<open>Numbers\<close>

text \<open>
  A JavaScript number is an IEEE 754 double. The integers below \<open>2 ^ 53\<close> are doubles, and
  their sums, products and minima are exact while they stay below \<open>2 ^ 53\<close>: these are
  written with the operations of \<open>nat\<close>. A quotient is in general not a double: it is
  rounded to the nearest one, ties to the even significand. The module divides positive
  integers below \<open>2 ^ 53\<close> and multiplies a quotient by 100, where a result neither
  overflows nor is subnormal, so a double is modelled by the rational number it denotes and
  only the rounding to 53 significant bits is written out.
\<close>

fun ilog2 :: "nat \<Rightarrow> nat" where
  "ilog2 n = (if n < 2 then 0 else Suc (ilog2 (n div 2)))"

declare ilog2.simps [simp del]

text \<open>The binary exponent of a positive rational \<open>x\<close>: \<open>2 powi e \<le> x < 2 powi (e + 1)\<close>.\<close>

definition exponent :: "rat \<Rightarrow> int" where
  "exponent x =
     (let (p, q) = quotient_of x;
          d = int (ilog2 (nat p)) - int (ilog2 (nat q))
      in if 2 powi d \<le> x then d else d - 1)"

definition round_half_even :: "rat \<Rightarrow> int" where
  "round_half_even q =
     (let f = \<lfloor>q\<rfloor>; r = q - of_int f
      in if r < 1 / 2 then f else if 1 / 2 < r then f + 1 else if even f then f else f + 1)"

definition double :: "rat \<Rightarrow> rat" where
  "double x =
     (if x = 0 then 0
      else let u = 2 powi (exponent \<bar>x\<bar> - 52)
           in sgn x * of_int (round_half_even (\<bar>x\<bar> / u)) * u)"

text \<open>\<open>Math.round\<close> takes a tie to the larger integer; \<open>Math.ceil\<close> is the ceiling.\<close>

definition Math_round :: "rat \<Rightarrow> int" where
  "Math_round x = \<lfloor>x + 1 / 2\<rfloor>"

definition Math_ceil :: "rat \<Rightarrow> int" where
  "Math_ceil x = \<lceil>x\<rceil>"

subsection \<open>createFileChunks\<close>

text \<open>
  \<open>Math.ceil(file.size / chunkSize)\<close>. With \<open>chunkSize\<close> 0 the quotient is \<open>Infinity\<close>, or
  \<open>NaN\<close> for an empty file; \<open>index < NaN\<close> is false for every index, as \<open>index < 0\<close> is.
\<close>

definition totalChunks :: "nat \<Rightarrow> nat \<Rightarrow> enat" where
  "totalChunks fileSize chunkSize =
     (if chunkSize = 0 then (if fileSize = 0 then 0 else \<infinity>)
      else enat (nat (Math_ceil (double (of_nat fileSize / of_nat chunkSize)))))"

text \<open>
  The \<open>for\<close> loop of \<open>createFileChunks\<close>. A chunk, \<open>file.slice(start, end)\<close>, is the pair
  of its bounds: the bytes from \<open>start\<close> up to, not including, \<open>end\<close>. The loop does not end
  when \<open>totalChunks\<close> is \<open>Infinity\<close>: its value is then \<open>None\<close>.
\<close>

partial_function (option) chunk_loop ::
  "nat \<Rightarrow> nat \<Rightarrow> enat \<Rightarrow> nat \<Rightarrow> (nat \<times> nat) list \<Rightarrow> (nat \<times> nat) list option" where
  "chunk_loop fileSize chunkSize bound index chunks =
     (if enat index < bound
      then (let start = index * chunkSize;
                end' = min (start + chunkSize) fileSize
            in chunk_loop fileSize chunkSize bound (index + 1) (chunks @ [(start, end')]))
      else Some chunks)"

declare chunk_loop.simps [code]

definition createFileChunks :: "nat \<Rightarrow> nat \<Rightarrow> (nat \<times> nat) list option" where
  "createFileChunks fileSize chunkSize =
     chunk_loop fileSize chunkSize (totalChunks fileSize chunkSize) 0 []"

text \<open>The default \<open>chunkSize = 1024 * 1024\<close>.\<close>

definition default_chunkSize :: nat where
  "default_chunkSize = 1024 * 1024"

text \<open>The bytes of a chunk of a file: \<open>chunk.arrayBuffer()\<close>.\<close>

definition arrayBuffer :: "byte list \<Rightarrow> nat \<times> nat \<Rightarrow> byte list" where
  "arrayBuffer file chunk = take (snd chunk - fst chunk) (drop (fst chunk) file)"

subsection \<open>Progress\<close>

text \<open>
  \<open>chunks.length == 0 ? 100 : Math.round((currentCompleted / chunks.length) * 100)\<close>, with
  the quotient and the product rounded to doubles.
\<close>

definition percentage :: "nat \<Rightarrow> nat \<Rightarrow> int" where
  "percentage chunksLength currentCompleted =
     (if chunksLength = 0 then 100
      else Math_round (double (double (of_nat currentCompleted / of_nat chunksLength) * 100)))"

subsection \<open>The collaborators and the trace of an upload\<close>

text \<open>
  What the module does not decide is a field of \<open>env\<close>: the platform digest, the answers of
  the storage gateway (2xx or not) to \<open>PUT /blob-tree\<close> and to \<open>PUT /chunk\<close> of a chunk
  index, the answers of the backend actor, and whether the caller passed \<open>onProgress\<close>.
\<close>

record env =
  digest :: "byte list \<Rightarrow> byte list"
  blob_tree_ok :: bool
  chunk_ok :: "nat \<Rightarrow> bool"
  register_ok :: bool
  file_reference :: "string \<Rightarrow> string option"
  onProgress :: bool
  storageGatewayUrl :: string
  owner :: string
  encodeURIComponent :: "string \<Rightarrow> string"

text \<open>
  The calls that leave the module, in the order they are made. \<open>UploadChunk w i\<close> is the call
  of \<open>uploadChunk\<close> for chunk \<open>i\<close> by worker \<open>w\<close>, \<open>Uploaded i\<close> its successful return.
\<close>

datatype event =
    BuildInvoked "YHash list"
  | UploadBlobTree BlobHashTree nat
  | UploadChunk nat nat
  | Uploaded nat
  | Progress int
  | RegisterFileReference string string
  | GetFileReference string

subsection \<open>parallelUpload\<close>

definition MAXIMUM_CONCURRENT_UPLOADS :: nat where
  "MAXIMUM_CONCURRENT_UPLOADS = 10"

text \<open>
  A worker is one of the ten asynchronous functions of \<open>Promise.all\<close>: its loop variable
  \<open>i\<close>, and where it stands. \<open>Ready\<close>: about to test \<open>i < chunks.length\<close>. \<open>Uploading\<close>:
  suspended in \<open>await uploadSingleChunk(i)\<close>. \<open>Finished\<close>: the loop has ended, the promise is
  fulfilled. \<open>Rejected\<close>: the upload of chunk \<open>i\<close> has thrown, the promise is rejected.
\<close>

datatype phase = Ready | Uploading | Finished | Rejected

record worker =
  loop_i :: nat
  phase :: phase

text \<open>
  The state of one call of \<open>parallelUpload\<close>: the workers, the shared counter, the calls
  made so far, and the promise of \<open>Promise.all\<close>, which is pending (\<open>None\<close>) until every worker
  is fulfilled or one is rejected; it keeps the first rejection.
\<close>

record pool =
  workers :: "worker list"
  completedChunks :: nat
  trace :: "event list"
  settled :: "(error + unit) option"

definition all_finished :: "worker list \<Rightarrow> bool" where
  "all_finished ws = list_all (\<lambda>wk. phase wk = Finished) ws"

text \<open>
  One turn of the event loop: worker \<open>w\<close> runs until its next \<open>await\<close>. A ready worker tests
  its loop condition and calls \<open>uploadChunk\<close>, or ends. An uploading worker receives the
  gateway's answer: on success it increments the counter, reports the progress and adds
  \<open>MAXIMUM_CONCURRENT_UPLOADS\<close> to \<open>i\<close>; otherwise it throws. \<open>chunksLength\<close> is
  \<open>chunks.length\<close>.
\<close>

definition step :: "env \<Rightarrow> nat \<Rightarrow> pool \<Rightarrow> nat \<Rightarrow> pool" where
  "step env chunksLength s w =
     (if length (workers s) \<le> w then s
      else let wk = workers s ! w; i = loop_i wk in
        case phase wk of
          Ready \<Rightarrow>
            if i < chunksLength
            then s\<lparr>workers := (workers s)[w := wk\<lparr>phase := Uploading\<rparr>],
                   trace := trace s @ [UploadChunk w i]\<rparr>
            else let ws = (workers s)[w := wk\<lparr>phase := Finished\<rparr>]
                 in s\<lparr>workers := ws,
                      settled := (if settled s = None \<and> all_finished ws then Some (Inr ())
                                  else settled s)\<rparr>
        | Uploading \<Rightarrow>
            if chunk_ok env i
            then let currentCompleted = completedChunks s + 1
                 in s\<lparr>workers := (workers s)[w := \<lparr>loop_i = i + MAXIMUM_CONCURRENT_UPLOADS, phase = Ready\<rparr>],
                      completedChunks := currentCompleted,
                      trace := trace s @ [Uploaded i] @
                        (if onProgress env then [Progress (percentage chunksLength currentCompleted)]
                         else [])\<rparr>
            else s\<lparr>workers := (workers s)[w := wk\<lparr>phase := Rejected\<rparr>],
                   settled := (if settled s = None then Some (Inl (ChunkUploadFailed i))
                               else settled s)\<rparr>
        | Finished \<Rightarrow> s
        | Rejected \<Rightarrow> s)"

definition initial_pool :: pool where
  "initial_pool =
     \<lparr>workers = map (\<lambda>workerId. \<lparr>loop_i = workerId, phase = Ready\<rparr>) [0..<MAXIMUM_CONCURRENT_UPLOADS],
      completedChunks = 0, trace = [], settled = None\<rparr>"

text \<open>
  \<open>parallelUpload\<close> under a schedule: the workers take their turns in the order of the list.
  Every interleaving that the event loop can produce is a schedule.
\<close>

definition parallelUpload :: "env \<Rightarrow> nat \<Rightarrow> nat list \<Rightarrow> pool" where
  "parallelUpload env chunksLength schedule = foldl (step env chunksLength) initial_pool schedule"

text \<open>The schedule that gives every worker a turn, \<open>k\<close> times over.\<close>

definition round_robin :: "nat \<Rightarrow> nat list" where
  "round_robin k = concat (replicate k [0..<MAXIMUM_CONCURRENT_UPLOADS])"

text \<open>What a trace says: the chunk uploads called, with their workers; the chunks
  uploaded; the percentages reported.\<close>

fun uploads :: "event list \<Rightarrow> (nat \<times> nat) list" where
  "uploads [] = []"
| "uploads (UploadChunk w i # es) = (w, i) # uploads es"
| "uploads (e # es) = uploads es"

fun uploaded :: "event list \<Rightarrow> nat list" where
  "uploaded [] = []"
| "uploaded (Uploaded i # es) = i # uploaded es"
| "uploaded (e # es) = uploaded es"

fun progress :: "event list \<Rightarrow> int list" where
  "progress [] = []"
| "progress (Progress p # es) = p # progress es"
| "progress (e # es) = progress es"

fun registered :: "event list \<Rightarrow> (string \<times> string) list" where
  "registered [] = []"
| "registered (RegisterFileReference p h # es) = (p, h) # registered es"
| "registered (e # es) = registered es"

text \<open>The chunk indices of worker \<open>w\<close>: \<open>w\<close>, \<open>w + 10\<close>, \<open>w + 20\<close>, ... below \<open>n\<close>.\<close>

definition stride :: "nat \<Rightarrow> nat \<Rightarrow> nat list" where
  "stride w n = filter (\<lambda>i. i mod MAXIMUM_CONCURRENT_UPLOADS = w) [0..<n]"

subsection \<open>putFile\<close>

text \<open>The loop of \<open>processFileForUpload\<close>: the digest of every chunk, in order.\<close>

fun hash_chunks :: "env \<Rightarrow> byte list \<Rightarrow> (nat \<times> nat) list \<Rightarrow> error + YHash list" where
  "hash_chunks env file [] = Inr []"
| "hash_chunks env file (chunk # chunks) =
     (case fromBytes (digest env) (arrayBuffer file chunk) of
        Inl e \<Rightarrow> Inl e
      | Inr h \<Rightarrow> (case hash_chunks env file chunks of Inl e \<Rightarrow> Inl e | Inr hs \<Rightarrow> Inr (h # hs)))"

text \<open>
  The result of an asynchronous function is \<open>None\<close> as long as its promise is pending, and
  comes with the calls it has made.
\<close>

definition processFileForUpload ::
  "env \<Rightarrow> byte list \<Rightarrow> (error + (nat \<times> nat) list \<times> YHash list \<times> BlobHashTree) option \<times> event list" where
  "processFileForUpload env file =
     (case createFileChunks (length file) default_chunkSize of
        None \<Rightarrow> (None, [])
      | Some chunks \<Rightarrow>
          (case hash_chunks env file chunks of
             Inl e \<Rightarrow> (Some (Inl e), [])
           | Inr chunkHashes \<Rightarrow>
               (case build (digest env) chunkHashes of
                  Inl e \<Rightarrow> (Some (Inl e), [BuildInvoked chunkHashes])
                | Inr blobHashTree \<Rightarrow>
                    (Some (Inr (chunks, chunkHashes, blobHashTree)), [BuildInvoked chunkHashes]))))"

definition getDirectURL :: "env \<Rightarrow> string \<Rightarrow> (error + string) \<times> event list" where
  "getDirectURL env path =
     (if path = [] then (Inl PathEmpty, [])
      else case file_reference env path of
             None \<Rightarrow> (Inl ActorRejected, [GetFileReference path])
           | Some h \<Rightarrow>
               (Inr (storageGatewayUrl env @ ''/blob?blob_hash='' @ encodeURIComponent env h
                     @ ''&owner_id='' @ encodeURIComponent env (owner env)),
                [GetFileReference path]))"

record upload_result =
  result_path :: string
  result_hash :: string
  result_url :: string

definition putFile ::
  "env \<Rightarrow> string \<Rightarrow> byte list \<Rightarrow> nat list \<Rightarrow> (error + upload_result) option \<times> event list" where
  "putFile env path file schedule =
     (if path = [] then (Some (Inl PathRequired), [])
      else case processFileForUpload env file of
        (None, t1) \<Rightarrow> (None, t1)
      | (Some (Inl e), t1) \<Rightarrow> (Some (Inl e), t1)
      | (Some (Inr (chunks, chunkHashes, blobHashTree)), t1) \<Rightarrow>
          let t2 = t1 @ [UploadBlobTree blobHashTree (length file)] in
          if \<not> blob_tree_ok env then (Some (Inl BlobTreeUploadFailed), t2)
          else
            let blobRootHash = hash (tree blobHashTree);
                s = parallelUpload env (length chunks) schedule;
                t3 = t2 @ trace s
            in case settled s of
                 None \<Rightarrow> (None, t3)
               | Some (Inl e) \<Rightarrow> (Some (Inl e), t3)
               | Some (Inr _) \<Rightarrow>
                   let hash' = toShaString blobRootHash;
                       t4 = t3 @ [RegisterFileReference path hash']
                   in if \<not> register_ok env then (Some (Inl ActorRejected), t4)
                      else case getDirectURL env path of
                             (Inl e, t5) \<Rightarrow> (Some (Inl e), t4 @ t5)
                           | (Inr url, t5) \<Rightarrow>
                               (Some (Inr \<lparr>result_path = path, result_hash = hash', result_url = url\<rparr>),
                                t4 @ t5))"

subsection \<open>An environment for closed examples\<close>

text \<open>
  A gateway and an actor that accept every call, SHA-256, and a caller that passes
  \<open>onProgress\<close>.
\<close>

definition example_env :: env where
  "example_env =
     \<lparr>digest = sha256, blob_tree_ok = True, chunk_ok = (\<lambda>i. True), register_ok = True,
      file_reference = (\<lambda>path. Some ''sha256:00''), onProgress = True,
      storageGatewayUrl = ''https://gateway'', owner = ''owner'',
      encodeURIComponent = (\<lambda>s. s)\<rparr>"

text \<open>
  Failure injection: the gateway refuses chunk 2; the digest is constant, so that a file of
  five chunks can be hashed symbolically.
\<close>

definition injected_env :: env where
  "injected_env = example_env\<lparr>digest := (\<lambda>data. replicate 32 0), chunk_ok := (\<lambda>i. i \<noteq> 2), onProgress := False\<rparr>"

subsection \<open>Invariants of the worker pool\<close>

text \<open>The local transition of a worker.\<close>

definition wstep :: "env \<Rightarrow> nat \<Rightarrow> worker \<Rightarrow> worker" where
  "wstep env n wk =
     (case phase wk of
        Ready \<Rightarrow> if loop_i wk < n then wk\<lparr>phase := Uploading\<rparr> else wk\<lparr>phase := Finished\<rparr>
      | Uploading \<Rightarrow>
          if chunk_ok env (loop_i wk)
          then \<lparr>loop_i = loop_i wk + MAXIMUM_CONCURRENT_UPLOADS, phase = Ready\<rparr>
          else wk\<lparr>phase := Rejected\<rparr>
      | Finished \<Rightarrow> wk
      | Rejected \<Rightarrow> wk)"

text \<open>One more than the last chunk index a worker has called \<open>uploadChunk\<close> for.\<close>

definition issued :: "worker \<Rightarrow> nat" where
  "issued wk = (if phase wk = Uploading \<or> phase wk = Rejected then Suc (loop_i wk) else loop_i wk)"

definition wf_worker :: "nat \<Rightarrow> nat \<Rightarrow> worker \<Rightarrow> bool" where
  "wf_worker n w wk \<longleftrightarrow>
     loop_i wk mod MAXIMUM_CONCURRENT_UPLOADS = w
     \<and> loop_i wk < n + MAXIMUM_CONCURRENT_UPLOADS
     \<and> (phase wk = Uploading \<or> phase wk = Rejected \<longrightarrow> loop_i wk < n)
     \<and> (phase wk = Finished \<longrightarrow> n \<le> loop_i wk)"

definition wf_workers :: "nat \<Rightarrow> worker list \<Rightarrow> bool" where
  "wf_workers n ws \<longleftrightarrow>
     length ws = MAXIMUM_CONCURRENT_UPLOADS \<and> (\<forall>w < MAXIMUM_CONCURRENT_UPLOADS. wf_worker n w (ws ! w))"

definition uploads_inv :: "pool \<Rightarrow> bool" where
  "uploads_inv s \<longleftrightarrow>
     distinct (map snd (uploads (trace s)))
     \<and> snd ` set (uploads (trace s)) = {j. j < issued (workers s ! (j mod MAXIMUM_CONCURRENT_UPLOADS))}
     \<and> (\<forall>u \<in> set (uploads (trace s)). fst u = snd u mod MAXIMUM_CONCURRENT_UPLOADS)"

definition uploaded_inv :: "env \<Rightarrow> pool \<Rightarrow> bool" where
  "uploaded_inv env s \<longleftrightarrow>
     distinct (uploaded (trace s))
     \<and> set (uploaded (trace s)) = {j. j < loop_i (workers s ! (j mod MAXIMUM_CONCURRENT_UPLOADS))}
     \<and> (\<forall>j \<in> set (uploaded (trace s)). chunk_ok env j)"

definition progress_inv :: "env \<Rightarrow> nat \<Rightarrow> pool \<Rightarrow> bool" where
  "progress_inv env n s \<longleftrightarrow>
     completedChunks s = length (uploaded (trace s))
     \<and> progress (trace s) =
         (if onProgress env then map (percentage n) [1..<Suc (completedChunks s)] else [])"

definition settled_inv :: "env \<Rightarrow> nat \<Rightarrow> pool \<Rightarrow> bool" where
  "settled_inv env n s \<longleftrightarrow>
     (settled s = Some (Inr ()) \<longleftrightarrow> all_finished (workers s))
     \<and> ((\<exists>e. settled s = Some (Inl e)) \<longleftrightarrow> (\<exists>w < length (workers s). phase (workers s ! w) = Rejected))
     \<and> (\<forall>e. settled s = Some (Inl e) \<longrightarrow> (\<exists>j < n. e = ChunkUploadFailed j \<and> \<not> chunk_ok env j))"

text \<open>The turns a worker still needs, at most.\<close>

definition turns :: "nat \<Rightarrow> worker \<Rightarrow> nat" where
  "turns n wk =
     (case phase wk of
        Ready \<Rightarrow> 2 * (n + MAXIMUM_CONCURRENT_UPLOADS - loop_i wk) + 2
      | Uploading \<Rightarrow> 2 * (n + MAXIMUM_CONCURRENT_UPLOADS - loop_i wk) + 1
      | Finished \<Rightarrow> 0
      | Rejected \<Rightarrow> 0)"

subsection \<open>Auxiliary definitions\<close>

text \<open>The two hexadecimal digits that \<open>toHex\<close> writes for one byte.\<close>

definition hex_pair :: "byte \<Rightarrow> string" where
  "hex_pair b = [hex_digit (unat b div 16), hex_digit (unat b mod 16)]"

subsection \<open>What \<open>fromShaString\<close> computes, in words\<close>

text \<open>
  The description that the parser is compared with. The line terminators cut a string into
  lines; every line is cut from the left into groups of two characters, with a last group of
  one character when the line has an odd length.
\<close>

fun lines_of :: "string \<Rightarrow> string list" where
  "lines_of [] = [[]]"
| "lines_of (c # cs) =
     (if isLineTerminator c then [] # lines_of cs
      else (case lines_of cs of [] \<Rightarrow> [[c]] | l # ls \<Rightarrow> (c # l) # ls))"

fun pairs_of :: "string \<Rightarrow> string list" where
  "pairs_of [] = []"
| "pairs_of [c] = [[c]]"
| "pairs_of (c # d # cs) = [c, d] # pairs_of cs"

definition groups_of :: "string \<Rightarrow> string list" where
  "groups_of s = concat (map pairs_of (lines_of s))"

text \<open>
  The hexadecimal digits with their values, and the white-space characters below 256 that
  are not line terminators: tab, vertical tab, form feed, space and no-break space.
\<close>

definition digit_of :: "char \<Rightarrow> nat option" where
  "digit_of c =
     map_of
       [(CHR ''0'', 0), (CHR ''1'', 1), (CHR ''2'', 2), (CHR ''3'', 3), (CHR ''4'', 4),
        (CHR ''5'', 5), (CHR ''6'', 6), (CHR ''7'', 7), (CHR ''8'', 8), (CHR ''9'', 9),
        (CHR ''a'', 10), (CHR ''b'', 11), (CHR ''c'', 12), (CHR ''d'', 13), (CHR ''e'', 14),
        (CHR ''f'', 15), (CHR ''A'', 10), (CHR ''B'', 11), (CHR ''C'', 12), (CHR ''D'', 13),
        (CHR ''E'', 14), (CHR ''F'', 15)] c"

definition blank :: "char \<Rightarrow> bool" where
  "blank c = (c \<in> set [CHR 0x09, CHR 0x0B, CHR 0x0C, CHR 0x20, CHR 0xA0])"

text \<open>
  The byte of a group: two hexadecimal digits are their value; a digit followed by
  something else, or alone, is the digit; a white-space character or a plus sign followed
  by a digit is the digit; a minus sign followed by a digit \<open>y\<close> is \<open>256 - y\<close> modulo 256;
  every other group is 0.
\<close>

definition byte_of_group :: "string \<Rightarrow> byte" where
  "byte_of_group g =
     (case g of
        [a] \<Rightarrow> (case digit_of a of Some x \<Rightarrow> of_nat x | None \<Rightarrow> 0)
      | [a, b] \<Rightarrow>
          (case (digit_of a, digit_of b) of
             (Some x, Some y) \<Rightarrow> of_nat (16 * x + y)
           | (Some x, None) \<Rightarrow> of_nat x
           | (None, Some y) \<Rightarrow>
               if blank a \<or> a = CHR ''+'' then of_nat y
               else if a = CHR ''-'' then of_nat (256 - y) else 0
           | (None, None) \<Rightarrow> 0)
      | _ \<Rightarrow> 0)"

text \<open>
  The outcome by the number of groups: a \<open>TypeError\<close> for none, the length error of the
  constructor for a number other than 32, the digest of the 32 bytes otherwise.
\<close>

definition digest_of_groups :: "string list \<Rightarrow> error + YHash" where
  "digest_of_groups gs =
     (if gs = [] then Inl TypeError
      else if length gs \<noteq> 32 then Inl (InvalidDigestLength (length gs))
      else Inr (YHash (map byte_of_group gs)))"

section \<open>Properties\<close>

subsection \<open>YHash: hexadecimal and tagged strings\<close>

lemma hex_digit_facts:
  assumes "d < 16"
  shows "hex_value (hex_digit d) = Some d"
    and "\<not> isWhiteSpace (hex_digit d)"
    and "\<not> isLineTerminator (hex_digit d)"
    and "hex_digit d \<noteq> CHR ''-''"
    and "hex_digit d \<noteq> CHR ''+''"
    and "hex_digit d \<noteq> CHR ''x''"
    and "hex_digit d \<noteq> CHR ''X''"
proof -
  from assms have "d = 0 \<or> d = 1 \<or> d = 2 \<or> d = 3 \<or> d = 4 \<or> d = 5 \<or> d = 6 \<or> d = 7 \<or> d = 8
      \<or> d = 9 \<or> d = 10 \<or> d = 11 \<or> d = 12 \<or> d = 13 \<or> d = 14 \<or> d = 15"
    by presburger
  then show "hex_value (hex_digit d) = Some d"
    and "\<not> isWhiteSpace (hex_digit d)"
    and "\<not> isLineTerminator (hex_digit d)"
    and "hex_digit d \<noteq> CHR ''-''"
    and "hex_digit d \<noteq> CHR ''+''"
    and "hex_digit d \<noteq> CHR ''x''"
    and "hex_digit d \<noteq> CHR ''X''"
    by (auto simp: hex_digit_def hex_value_def isWhiteSpace_def isLineTerminator_def)
qed

lemma byte_nibbles: "unat (b::byte) div 16 < 16" "unat b mod 16 < 16"
proof -
  have "unat b < 256" using unsigned_less [of b, where ?'a = nat] by simp
  then show "unat b div 16 < 16" "unat b mod 16 < 16" by simp_all
qed

lemma padStart_toString16: "padStart 2 (CHR ''0'') (toString16 (unat (b::byte))) = hex_pair b"
proof (cases "unat b < 16")
  case True
  then show ?thesis
    by (simp add: toString16.simps [of "unat b"] padStart_def hex_pair_def hex_digit_def)
next
  case False
  with byte_nibbles(1) [of b] show ?thesis
    by (simp add: toString16.simps [of "unat b"] toString16.simps [of "unat b div 16"]
        padStart_def hex_pair_def)
qed

lemma toHex_pairs: "toHex h = concat (map hex_pair (bytes h))"
  by (simp add: toHex_def padStart_toString16)

lemma parseInt16_hex_pair: "toUint8 (parseInt16 (hex_pair b)) = b"
proof -
  have "parseInt16 (hex_pair b) = Some (int (unat b div 16 * 16 + unat b mod 16))"
    using hex_digit_facts [OF byte_nibbles(1) [of b]] hex_digit_facts [OF byte_nibbles(2) [of b]]
    by (simp add: parseInt16_def hex_pair_def strip_sign_def strip_0x_def)
  then show ?thesis by (simp add: toUint8_def)
qed

lemma match_groups_hex: "match_groups (concat (map hex_pair bs)) = map hex_pair bs"
proof (induction bs)
  case Nil
  show ?case by simp
next
  case (Cons b bs)
  then show ?case
    using hex_digit_facts(3) [OF byte_nibbles(1) [of b]] hex_digit_facts(3) [OF byte_nibbles(2) [of b]]
    by (simp add: hex_pair_def)
qed

text \<open>
  C7. For every YHash \<open>h\<close> (its bytes are 32), parsing the tagged string of \<open>h\<close> gives \<open>h\<close>
  back: \<open>YHash.fromShaString(h.toShaString())\<close> has the bytes of \<open>h\<close>.
\<close>

theorem fromShaString_toShaString:
  assumes "length (bytes h) = 32"
  shows "fromShaString (toShaString h) = Inr h"
proof -
  have mg: "match_groups (toHex h) = map hex_pair (bytes h)"
    by (simp only: toHex_pairs match_groups_hex)
  from assms obtain g gs where gs: "map hex_pair (bytes h) = g # gs"
    by (cases "bytes h") auto
  have "fromShaString (toShaString h) = fromHex (toHex h)"
    by (simp add: fromShaString_def toShaString_def)
  also have "\<dots> = new_YHash (map (\<lambda>g. toUint8 (parseInt16 g)) (map hex_pair (bytes h)))"
    by (simp add: fromHex_def match_pairs_def mg gs)
  also have "\<dots> = new_YHash (bytes h)"
    by (simp add: parseInt16_hex_pair comp_def)
  also have "\<dots> = Inr h"
    using assms by (simp add: new_YHash_def)
  finally show ?thesis .
qed

theorem fromShaString_toShaString_witness:
  "length (bytes (YHash (replicate 32 171))) = 32
   \<and> toShaString (YHash (replicate 32 171)) = ''sha256:'' @ concat (replicate 32 ''ab'')
   \<and> fromShaString (''sha256:'' @ concat (replicate 32 ''ab'')) = Inr (YHash (replicate 32 171))"
proof -
  have len: "length (bytes (YHash (replicate 32 171))) = 32" by simp
  have str: "toShaString (YHash (replicate 32 171)) = ''sha256:'' @ concat (replicate 32 ''ab'')"
    by code_simp
  from fromShaString_toShaString [OF len] len str show ?thesis by simp
qed

text \<open>
  The parser and the description in words agree, step by step: the groups that the regular
  expression finds, the digits and white space that \<open>parseInt\<close> accepts, the byte of a
  group, and the removal of the first occurrence of the tag.
\<close>

lemma lines_of_nonempty: "lines_of s \<noteq> []"
  by (induction s) (simp_all split: list.splits)

lemma match_groups_groups_of: "match_groups s = groups_of s"
proof (induction s rule: match_groups.induct)
  case 1
  show ?case by (simp add: groups_of_def)
next
  case (2 c)
  show ?case by (simp add: groups_of_def)
next
  case (3 c d cs)
  obtain l ls where l: "lines_of cs = l # ls"
    using lines_of_nonempty [of cs] by (cases "lines_of cs") auto
  from 3 l show ?case by (auto simp: groups_of_def)
qed

lemma pairs_of_length: "g \<in> set (pairs_of s) \<Longrightarrow> length g = 1 \<or> length g = 2"
  by (induction s rule: pairs_of.induct) auto

lemma groups_of_length: "g \<in> set (groups_of s) \<Longrightarrow> length g = 1 \<or> length g = 2"
  by (auto simp: groups_of_def dest: pairs_of_length)

lemma lines_of_chars: "l \<in> set (lines_of s) \<Longrightarrow> c \<in> set l \<Longrightarrow> \<not> isLineTerminator c"
proof (induction s arbitrary: l)
  case Nil
  then show ?case by simp
next
  case (Cons d ds)
  obtain k ks where k: "lines_of ds = k # ks"
    using lines_of_nonempty [of ds] by (cases "lines_of ds") auto
  show ?case
  proof (cases "isLineTerminator d")
    case True
    with Cons.prems have "l = [] \<or> l \<in> set (lines_of ds)" by auto
    with Cons show ?thesis by auto
  next
    case False
    with Cons.prems k have "l = d # k \<or> l \<in> set ks" by auto
    moreover have "k \<in> set (lines_of ds)" "set ks \<subseteq> set (lines_of ds)" using k by auto
    ultimately show ?thesis using Cons.IH Cons.prems(2) False by auto
  qed
qed

lemma pairs_of_chars: "g \<in> set (pairs_of l) \<Longrightarrow> set g \<subseteq> set l"
  by (induction l rule: pairs_of.induct) auto

lemma groups_of_chars: "g \<in> set (groups_of s) \<Longrightarrow> c \<in> set g \<Longrightarrow> \<not> isLineTerminator c"
proof -
  assume g: "g \<in> set (groups_of s)" and c: "c \<in> set g"
  from g obtain l where l: "l \<in> set (lines_of s)" and gl: "g \<in> set (pairs_of l)"
    by (auto simp: groups_of_def)
  from pairs_of_chars [OF gl] c have "c \<in> set l" by auto
  with l show ?thesis by (rule lines_of_chars)
qed

lemma hex_value_range: "hex_value c = Some x \<Longrightarrow> 48 \<le> (of_char c :: nat) \<and> of_char c \<le> (102 :: nat) \<and> x < 16"
  by (auto simp: hex_value_def Let_def split: if_splits)

lemma hex_value_facts:
  assumes "hex_value c = Some x"
  shows "\<not> isWhiteSpace c" "c \<noteq> CHR ''-''" "c \<noteq> CHR ''+''"
  using hex_value_range [OF assms] by (auto simp: isWhiteSpace_def)

lemma hex_value_x: "hex_value (CHR ''x'') = None" "hex_value (CHR ''X'') = None"
  "hex_value (CHR ''-'') = None" "hex_value (CHR ''+'') = None" "hex_value (CHR ''0'') = Some 0"
  by (simp_all add: hex_value_def)

lemma isWhiteSpace_sign: "isWhiteSpace c \<Longrightarrow> c \<noteq> CHR ''-'' \<and> c \<noteq> CHR ''+''"
  by (auto simp: isWhiteSpace_def)

lemma digit_chars:
  "c \<in> set ''0123456789abcdefABCDEF''
   \<Longrightarrow> digit_of c = hex_value c \<and> hex_value c \<noteq> None"
  by (auto simp: digit_of_def hex_value_def)

lemma hex_value_chars:
  assumes "hex_value c = Some x"
  shows "c \<in> set ''0123456789abcdefABCDEF''"
proof -
  define n :: nat where "n = of_char c"
  have c: "c = char_of n" by (simp add: n_def)
  from assms have "48 \<le> n \<and> n \<le> 57 \<or> 97 \<le> n \<and> n \<le> 102 \<or> 65 \<le> n \<and> n \<le> 70"
    by (auto simp: hex_value_def Let_def n_def split: if_splits)
  then have "n = 48 \<or> n = 49 \<or> n = 50 \<or> n = 51 \<or> n = 52 \<or> n = 53 \<or> n = 54 \<or> n = 55
      \<or> n = 56 \<or> n = 57 \<or> n = 97 \<or> n = 98 \<or> n = 99 \<or> n = 100 \<or> n = 101 \<or> n = 102
      \<or> n = 65 \<or> n = 66 \<or> n = 67 \<or> n = 68 \<or> n = 69 \<or> n = 70"
    by presburger
  then show ?thesis unfolding c by (elim disjE) (simp_all add: char_of_def bit_0)
qed

lemma digit_of_hex_value: "digit_of c = hex_value c"
proof (cases "hex_value c")
  case (Some x)
  from digit_chars [OF hex_value_chars [OF Some]] show ?thesis by simp
next
  case None
  let ?t = "[(CHR ''0'', 0::nat), (CHR ''1'', 1), (CHR ''2'', 2), (CHR ''3'', 3), (CHR ''4'', 4),
        (CHR ''5'', 5), (CHR ''6'', 6), (CHR ''7'', 7), (CHR ''8'', 8), (CHR ''9'', 9),
        (CHR ''a'', 10), (CHR ''b'', 11), (CHR ''c'', 12), (CHR ''d'', 13), (CHR ''e'', 14),
        (CHR ''f'', 15), (CHR ''A'', 10), (CHR ''B'', 11), (CHR ''C'', 12), (CHR ''D'', 13),
        (CHR ''E'', 14), (CHR ''F'', 15)]"
  have "c \<notin> fst ` set ?t"
  proof
    assume "c \<in> fst ` set ?t"
    then have "c \<in> set ''0123456789abcdefABCDEF''" by simp
    from digit_chars [OF this] None show False by simp
  qed
  then have "map_of ?t c = None" by (rule iffD2 [OF map_of_eq_None_iff])
  then have "digit_of c = None" by (simp only: digit_of_def)
  with None show ?thesis by simp
qed

lemma blank_isWhiteSpace: "\<not> isLineTerminator c \<Longrightarrow> blank c = isWhiteSpace c"
  by (auto simp: blank_def isWhiteSpace_def isLineTerminator_def)

lemma parseInt16_single: "toUint8 (parseInt16 [a]) = byte_of_group [a]"
proof (cases "hex_value a")
  case None
  then show ?thesis
    by (auto simp: parseInt16_def byte_of_group_def digit_of_hex_value toUint8_def strip_sign_def
        strip_0x_def)
next
  case (Some x)
  with hex_value_facts [OF Some] show ?thesis
    by (auto simp: parseInt16_def byte_of_group_def digit_of_hex_value toUint8_def strip_sign_def
        strip_0x_def)
qed

lemma neg_byte: "y \<le> 256 \<Longrightarrow> (word_of_int (- int y) :: byte) = of_nat (256 - y)"
  by (simp add: of_nat_diff)

lemma parseInt16_pair:
  assumes lt: "\<not> isLineTerminator a"
  shows "toUint8 (parseInt16 [a, b]) = byte_of_group [a, b]"
proof (cases "hex_value a")
  case (Some x)
  note a = hex_value_facts [OF Some]
  show ?thesis
  proof (cases "hex_value b")
    case None
    with Some a show ?thesis
      by (auto simp: parseInt16_def byte_of_group_def digit_of_hex_value toUint8_def
          strip_sign_def strip_0x_def hex_value_x)
  next
    case (Some y)
    with \<open>hex_value a = Some x\<close> a hex_value_x show ?thesis
      by (auto simp: parseInt16_def byte_of_group_def digit_of_hex_value toUint8_def
          strip_sign_def strip_0x_def)
  qed
next
  case None
  have nox: "a \<noteq> CHR ''0''" using None by (auto simp: hex_value_x)
  note bl = blank_isWhiteSpace [OF lt]
  show ?thesis
  proof (cases "hex_value b")
    case b: None
    show ?thesis
    proof (cases "isWhiteSpace a")
      case True
      with None b show ?thesis
        by (auto simp: parseInt16_def byte_of_group_def digit_of_hex_value toUint8_def
            strip_sign_def strip_0x_def)
    next
      case False
      with None b nox show ?thesis
        by (auto simp: parseInt16_def byte_of_group_def digit_of_hex_value toUint8_def
            strip_sign_def strip_0x_def)
    qed
  next
    case (Some y)
    note b = hex_value_facts [OF Some]
    from hex_value_range [OF Some] have y: "y \<le> 256" by simp
    show ?thesis
    proof (cases "isWhiteSpace a")
      case True
      with None Some b bl isWhiteSpace_sign [OF True] show ?thesis
        by (auto simp: parseInt16_def byte_of_group_def digit_of_hex_value toUint8_def
            strip_sign_def strip_0x_def)
    next
      case False
      with None Some b bl nox neg_byte [OF y] show ?thesis
        by (auto simp: parseInt16_def byte_of_group_def digit_of_hex_value toUint8_def
            strip_sign_def strip_0x_def)
    qed
  qed
qed

lemma parseInt16_group:
  assumes g: "g \<in> set (groups_of s)"
  shows "toUint8 (parseInt16 g) = byte_of_group g"
proof -
  from g have "length g = 1 \<or> length g = 2" by (rule groups_of_length)
  then consider a where "g = [a]" | a b where "g = [a, b]"
    by (auto simp: length_Suc_conv eval_nat_numeral)
  then show ?thesis
  proof cases
    case 1
    then show ?thesis by (simp add: parseInt16_single)
  next
    case 2
    with groups_of_chars [OF g, of a] have "\<not> isLineTerminator a" by simp
    with 2 show ?thesis by (simp add: parseInt16_pair)
  qed
qed

lemma fromHex_groups: "fromHex b = digest_of_groups (groups_of b)"
proof -
  have "map (\<lambda>g. toUint8 (parseInt16 g)) (groups_of b) = map byte_of_group (groups_of b)"
    by (rule map_cong) (simp_all add: parseInt16_group)
  then show ?thesis
    by (cases "groups_of b")
       (simp_all add: fromHex_def match_pairs_def match_groups_groups_of digest_of_groups_def
         new_YHash_def)
qed

lemma replace_first_absent: "\<not> sublist pat s \<Longrightarrow> replace_first pat s = s"
proof (induction s)
  case Nil
  show ?case by simp
next
  case (Cons c cs)
  have "\<not> sublist pat cs" using Cons.prems by (auto simp: sublist_Cons_right)
  moreover have "take (length pat) (c # cs) \<noteq> pat"
  proof
    assume "take (length pat) (c # cs) = pat"
    then have "prefix pat (c # cs)" by (metis take_is_prefix)
    with Cons.prems show False by (auto simp: sublist_Cons_right)
  qed
  ultimately show ?case using Cons.IH by simp
qed

lemma replace_first_occurrence:
  assumes "pat \<noteq> []" and "\<not> sublist pat (p @ butlast pat)"
  shows "replace_first pat (p @ pat @ q) = p @ q"
  using assms(2)
proof (induction p)
  case Nil
  from assms(1) obtain c cs where "pat = c # cs" by (cases pat) auto
  then show ?case by simp
next
  case (Cons c p)
  have rest: "\<not> sublist pat (p @ butlast pat)" using Cons.prems by (auto simp: sublist_Cons_right)
  have "take (length pat) (c # p @ pat @ q) \<noteq> pat"
  proof
    assume eq: "take (length pat) (c # p @ pat @ q) = pat"
    have len: "length pat \<le> length ((c # p) @ butlast pat)" using assms(1) by simp
    have "take (length pat) ((c # p) @ butlast pat) = take (length pat) (c # p @ pat @ q)"
    proof -
      have "c # p @ pat @ q = ((c # p) @ butlast pat) @ (last pat # q)"
        using assms(1) by simp
      then show ?thesis using len by (metis take_append diff_is_0_eq take_0 append_Nil2)
    qed
    with eq have "prefix pat ((c # p) @ butlast pat)" by (metis take_is_prefix)
    with Cons.prems show False by (auto simp: sublist_Cons_right)
  qed
  with Cons.IH [OF rest] show ?case by simp
qed

text \<open>
  Every string that contains the tag has a first occurrence of it: the two cases of the
  theorem below cover every string.
\<close>

lemma first_occurrence_gen:
  assumes "pat \<noteq> []"
  shows "sublist pat s \<Longrightarrow> \<exists>p q. s = p @ pat @ q \<and> \<not> sublist pat (p @ butlast pat)"
proof (induction s)
  case Nil
  with assms show ?case by simp
next
  case (Cons c cs)
  have short: "\<not> sublist pat (butlast pat)"
  proof
    assume "sublist pat (butlast pat)"
    then have "length pat \<le> length (butlast pat)" by (rule sublist_length_le)
    then have "length pat \<le> length pat - 1" by (simp only: length_butlast)
    with assms show False by (cases pat) simp_all
  qed
  show ?case
  proof (cases "prefix pat (c # cs)")
    case True
    then obtain q where "c # cs = [] @ pat @ q" by (auto simp: prefix_def)
    moreover from short have "\<not> sublist pat ([] @ butlast pat)" by simp
    ultimately show ?thesis by blast
  next
    case False
    with Cons.prems have "sublist pat cs" by (simp add: sublist_Cons_right)
    from Cons.IH [OF this] obtain p q where pq: "cs = p @ pat @ q"
      and no: "\<not> sublist pat (p @ butlast pat)" by blast
    have "\<not> prefix pat (c # p @ butlast pat)"
    proof
      assume "prefix pat (c # p @ butlast pat)"
      moreover have "prefix (c # p @ butlast pat) (c # cs)"
      proof -
        have "pat = butlast pat @ [last pat]" using assms by simp
        then have "cs = (p @ butlast pat) @ (last pat # q)" using pq by (metis append.assoc append_Cons append_Nil)
        then show ?thesis by (metis Cons_prefix_Cons prefixI)
      qed
      ultimately have "prefix pat (c # cs)" by (rule prefix_order.trans)
      with False show False by simp
    qed
    with no have "\<not> sublist pat ((c # p) @ butlast pat)" by (simp add: sublist_Cons_right)
    moreover have "c # cs = (c # p) @ pat @ q" by (simp add: pq)
    ultimately show ?thesis by blast
  qed
qed

lemma first_occurrence:
  "sublist ''sha256:'' s \<Longrightarrow> \<exists>p q. s = p @ ''sha256:'' @ q \<and> \<not> sublist ''sha256:'' (p @ ''sha256'')"
  using first_occurrence_gen [of "''sha256:''" s] by simp

text \<open>
  C8, as the code has it. \<open>fromShaString\<close> checks neither the prefix nor the digits. For
  every string (of code units below 256): the first occurrence of \<open>sha256:\<close>, wherever it
  stands, is removed, and a string without it is taken as it is; the line terminators are
  dropped and every line between them is cut into groups of two characters, the last group
  of a line of odd length having one. The call fails only by the number of groups: with a
  \<open>TypeError\<close> when there is none, with the length error of the constructor when there are
  not 32. With 32 groups it returns the digest of their bytes, where a group that is not two
  hexadecimal digits has the byte given by \<open>byte_of_group\<close>: a sign or a white-space
  character in front of a digit is read, a digit in front of something else is read alone,
  and every other group is 0. The first case below is a string without the tag; in the
  second the tag stands after \<open>p\<close> and does not begin earlier, which is what the
  condition on \<open>p\<close> followed by the tag without its last character says.
\<close>

theorem fromShaString_cases:
  "(\<not> sublist ''sha256:'' s \<longrightarrow> fromShaString s = digest_of_groups (groups_of s))
   \<and> (\<not> sublist ''sha256:'' (p @ ''sha256'') \<longrightarrow>
        fromShaString (p @ ''sha256:'' @ q) = digest_of_groups (groups_of (p @ q)))"
proof (intro conjI impI)
  assume "\<not> sublist ''sha256:'' s"
  then show "fromShaString s = digest_of_groups (groups_of s)"
    by (simp add: fromShaString_def replace_first_absent fromHex_groups)
next
  assume "\<not> sublist ''sha256:'' (p @ ''sha256'')"
  then have "replace_first ''sha256:'' (p @ ''sha256:'' @ q) = p @ q"
    using replace_first_occurrence [of "''sha256:''" p q] by simp
  then show "fromShaString (p @ ''sha256:'' @ q) = digest_of_groups (groups_of (p @ q))"
    by (simp add: fromShaString_def fromHex_groups)
qed

theorem fromShaString_cases_witness:
  "\<not> sublist ''sha256:'' (concat (replicate 32 ''-1''))
   \<and> fromShaString (concat (replicate 32 ''-1'')) = Inr (YHash (replicate 32 255))
   \<and> \<not> sublist ''sha256:'' ((''AB'' @ [CHR 0x0A] @ ''5'' @ [CHR 0x0A]) @ ''sha256'')
   \<and> fromShaString ((''AB'' @ [CHR 0x0A] @ ''5'' @ [CHR 0x0A]) @ ''sha256:'' @ concat (replicate 29 '' f'') @ ''0x'' @ [CHR 0x0D]) =
       Inr (YHash ([171, 5] @ replicate 29 15 @ [0]))"
proof -
  let ?s = "concat (replicate 32 ''-1'')"
  let ?p = "''AB'' @ [CHR 0x0A] @ ''5'' @ [CHR 0x0A]"
  let ?q = "concat (replicate 29 '' f'') @ ''0x'' @ [CHR 0x0D]"
  have a: "\<not> sublist ''sha256:'' ?s" by code_simp
  have b: "\<not> sublist ''sha256:'' (?p @ ''sha256'')" by code_simp
  have g: "groups_of ?s = replicate 32 ''-1''" by code_simp
  have h: "groups_of (?p @ ?q) = [''AB'', ''5''] @ replicate 29 '' f'' @ [''0x'']" by code_simp
  have bytes: "byte_of_group ''-1'' = 255" "byte_of_group ''AB'' = 171" "byte_of_group ''5'' = 5"
    "byte_of_group '' f'' = 15" "byte_of_group ''0x'' = 0"
    by (simp_all add: byte_of_group_def digit_of_def blank_def)
  have v: "digest_of_groups (groups_of ?s) = Inr (YHash (replicate 32 255))"
    unfolding g by (simp add: digest_of_groups_def bytes)
  have w: "digest_of_groups (groups_of (?p @ ?q)) = Inr (YHash ([171, 5] @ replicate 29 15 @ [0]))"
    unfolding h by (simp add: digest_of_groups_def bytes)
  from fromShaString_cases [of ?s ?p ?q] a b v w show ?thesis by simp
qed

text \<open>
  C8 as stated fails: a string with the prefix \<open>md5:\<close> and a string with the body \<open>zz...\<close>
  are both parsed without an error.
\<close>

theorem fromShaString_unchecked:
  "fromShaString (''md5:'' @ replicate 60 (CHR ''a'')) = Inr (YHash ([0, 5] @ replicate 30 170))
   \<and> fromShaString (''sha256:'' @ replicate 64 (CHR ''z'')) = Inr (YHash (replicate 32 0))"
  by code_simp

text \<open>C10. \<open>toString()\<close> of a YHash throws, whatever the YHash is.\<close>

theorem toString_YHash_throws: "toString_YHash h = Inl ToStringNotSupported"
  by (simp add: toString_YHash_def)

subsection \<open>SHA-256\<close>

lemma message_schedule_numeral:
  "message_schedule (numeral k) ws =
     message_schedule (pred_numeral k)
       (add32 (add32 (add32 (sigma1 (ws ! 1)) (ws ! 6)) (sigma0 (ws ! 14))) (ws ! 15) # ws)"
  by (simp add: numeral_eq_Suc)

lemma replicate_numeral_Cons: "replicate (numeral k) x = x # replicate (pred_numeral k) x"
  by (simp add: numeral_eq_Suc)

lemmas sha256_eval = K256_def H256_def message_schedule_numeral sigma0_def sigma1_def Sigma0_def Sigma1_def
  Ch_def Maj_def rotr_def next_state_def add32_def compress_def

text \<open>The digest has 32 bytes.\<close>

lemma round256_length: "length s = 8 \<Longrightarrow> length (round256 s kw) = 8"
proof -
  assume "length s = 8"
  then obtain a b c d e f g h where "s = [a, b, c, d, e, f, g, h]"
    by (auto simp: eval_nat_numeral length_Suc_conv)
  then show ?thesis by (cases kw) (simp add: next_state_def)
qed

lemma foldl_round256_length: "length s = 8 \<Longrightarrow> length (foldl round256 s kws) = 8"
  by (induction kws arbitrary: s) (simp_all add: round256_length)

lemma compress_length: "length hs = 8 \<Longrightarrow> length (compress hs block) = 8"
  by (simp add: compress_def foldl_round256_length)

lemma process_length: "length hs = 8 \<Longrightarrow> length (process hs bs) = 8"
proof (induction hs bs rule: process.induct)
  case (1 hs bs)
  show ?case
  proof (cases "bs = []")
    case True
    with 1 show ?thesis by (simp add: process.simps [of hs "[]"])
  next
    case False
    with 1 show ?thesis by (simp add: process.simps [of hs bs] compress_length)
  qed
qed

lemma bytes_of_words_length: "length (concat (map bytes_of ws)) = 4 * length ws"
  by (induction ws) (simp_all add: bytes_of_def)

lemma sha256_length: "\<forall>data. length (sha256 data) = 32"
  by (simp add: sha256_def bytes_of_words_length process_length H256_def)

text \<open>Three digests, computed step by step.\<close>

lemma sha256_zero_UNBALANCED:
  "sha256 [0, 0, 0, 0, 0, 0, 0, 0, 0, 0, 0, 0, 0, 0, 0, 0, 0, 0, 0, 0, 0, 0, 0, 0, 0, 0, 0, 0, 0, 0, 0, 0, 85, 78, 66, 65, 76, 65, 78, 67, 69, 68] =
     [126, 224, 195, 29, 29, 162, 246, 188, 29, 57, 15, 206, 199, 249, 4, 30, 220, 7, 119, 143, 225, 94, 117, 236, 205, 215, 91, 71, 165, 93, 5, 245]"
proof -
  have p: "pad [0, 0, 0, 0, 0, 0, 0, 0, 0, 0, 0, 0, 0, 0, 0, 0, 0, 0, 0, 0, 0, 0, 0, 0, 0, 0, 0, 0, 0, 0, 0, 0, 85, 78, 66, 65, 76, 65, 78, 67, 69, 68] =
      [0, 0, 0, 0, 0, 0, 0, 0, 0, 0, 0, 0, 0, 0, 0, 0, 0, 0, 0, 0, 0, 0, 0, 0, 0, 0, 0, 0, 0, 0, 0, 0, 85, 78, 66, 65, 76, 65, 78, 67, 69, 68, 128, 0, 0, 0, 0, 0, 0, 0, 0, 0, 0, 0, 0, 0, 0, 0, 0, 0, 0, 0, 1, 80]"
    by (simp add: pad_def length_bytes_def replicate_numeral_Cons)
  have c0: "compress H256
      [0x00000000, 0x00000000, 0x00000000, 0x00000000, 0x00000000, 0x00000000, 0x00000000, 0x00000000, 0x554e4241, 0x4c414e43, 0x45448000, 0x00000000, 0x00000000, 0x00000000, 0x00000000, 0x00000150] =
      [0x7ee0c31d, 0x1da2f6bc, 0x1d390fce, 0xc7f9041e, 0xdc07778f, 0xe15e75ec, 0xcdd75b47, 0xa55d05f5]"
    by (simp add: sha256_eval)
  have "process H256 [0, 0, 0, 0, 0, 0, 0, 0, 0, 0, 0, 0, 0, 0, 0, 0, 0, 0, 0, 0, 0, 0, 0, 0, 0, 0, 0, 0, 0, 0, 0, 0, 85, 78, 66, 65, 76, 65, 78, 67, 69, 68, 128, 0, 0, 0, 0, 0, 0, 0, 0, 0, 0, 0, 0, 0, 0, 0, 0, 0, 0, 0, 1, 80] =
      [0x7ee0c31d, 0x1da2f6bc, 0x1d390fce, 0xc7f9041e, 0xdc07778f, 0xe15e75ec, 0xcdd75b47, 0xa55d05f5]"
    by (simp add: process.simps [of _ "[0, 0, 0, 0, 0, 0, 0, 0, 0, 0, 0, 0, 0, 0, 0, 0, 0, 0, 0, 0, 0, 0, 0, 0, 0, 0, 0, 0, 0, 0, 0, 0, 85, 78, 66, 65, 76, 65, 78, 67, 69, 68, 128, 0, 0, 0, 0, 0, 0, 0, 0, 0, 0, 0, 0, 0, 0, 0, 0, 0, 0, 0, 1, 80]"]
        process.simps [of _ "[]"]
        c0)
  then show ?thesis by (simp add: sha256_def p bytes_of_def)
qed

lemma sha256_pair:
  "sha256 [0, 0, 0, 0, 0, 0, 0, 0, 0, 0, 0, 0, 0, 0, 0, 0, 0, 0, 0, 0, 0, 0, 0, 0, 0, 0, 0, 0, 0, 0, 0, 0, 3, 144, 88, 198, 242, 192, 203, 73, 44, 83, 59, 10, 77, 20, 239, 119, 204, 15, 120, 171, 204, 206, 213, 40, 125, 132, 161, 162, 1, 28, 251, 129] =
     [151, 178, 31, 63, 35, 97, 131, 126, 10, 76, 115, 139, 220, 195, 88, 155, 201, 8, 62, 90, 68, 29, 185, 139, 64, 17, 60, 234, 26, 201, 13, 235]"
proof -
  have p: "pad [0, 0, 0, 0, 0, 0, 0, 0, 0, 0, 0, 0, 0, 0, 0, 0, 0, 0, 0, 0, 0, 0, 0, 0, 0, 0, 0, 0, 0, 0, 0, 0, 3, 144, 88, 198, 242, 192, 203, 73, 44, 83, 59, 10, 77, 20, 239, 119, 204, 15, 120, 171, 204, 206, 213, 40, 125, 132, 161, 162, 1, 28, 251, 129] =
      [0, 0, 0, 0, 0, 0, 0, 0, 0, 0, 0, 0, 0, 0, 0, 0, 0, 0, 0, 0, 0, 0, 0, 0, 0, 0, 0, 0, 0, 0, 0, 0, 3, 144, 88, 198, 242, 192, 203, 73, 44, 83, 59, 10, 77, 20, 239, 119, 204, 15, 120, 171, 204, 206, 213, 40, 125, 132, 161, 162, 1, 28, 251, 129, 128, 0, 0, 0, 0, 0, 0, 0, 0, 0, 0, 0, 0, 0, 0, 0, 0, 0, 0, 0, 0, 0, 0, 0, 0, 0, 0, 0, 0, 0, 0, 0, 0, 0, 0, 0, 0, 0, 0, 0, 0, 0, 0, 0, 0, 0, 0, 0, 0, 0, 0, 0, 0, 0, 0, 0, 0, 0, 0, 0, 0, 0, 2, 0]"
    by (simp add: pad_def length_bytes_def replicate_numeral_Cons)
  have c0: "compress H256
      [0x00000000, 0x00000000, 0x00000000, 0x00000000, 0x00000000, 0x00000000, 0x00000000, 0x00000000, 0x039058c6, 0xf2c0cb49, 0x2c533b0a, 0x4d14ef77, 0xcc0f78ab, 0xccced528, 0x7d84a1a2, 0x011cfb81] =
      [0xeceea55b, 0x61d294b1, 0x038ecfc9, 0x4bc443bc, 0x6a66126b, 0xaf6f8d5e, 0xad0a0aed, 0xc99d0c15]"
    by (simp add: sha256_eval)
  have c1: "compress [0xeceea55b, 0x61d294b1, 0x038ecfc9, 0x4bc443bc, 0x6a66126b, 0xaf6f8d5e, 0xad0a0aed, 0xc99d0c15]
      [0x80000000, 0x00000000, 0x00000000, 0x00000000, 0x00000000, 0x00000000, 0x00000000, 0x00000000, 0x00000000, 0x00000000, 0x00000000, 0x00000000, 0x00000000, 0x00000000, 0x00000000, 0x00000200] =
      [0x97b21f3f, 0x2361837e, 0x0a4c738b, 0xdcc3589b, 0xc9083e5a, 0x441db98b, 0x40113cea, 0x1ac90deb]"
    by (simp add: sha256_eval)
  have "process H256 [0, 0, 0, 0, 0, 0, 0, 0, 0, 0, 0, 0, 0, 0, 0, 0, 0, 0, 0, 0, 0, 0, 0, 0, 0, 0, 0, 0, 0, 0, 0, 0, 3, 144, 88, 198, 242, 192, 203, 73, 44, 83, 59, 10, 77, 20, 239, 119, 204, 15, 120, 171, 204, 206, 213, 40, 125, 132, 161, 162, 1, 28, 251, 129, 128, 0, 0, 0, 0, 0, 0, 0, 0, 0, 0, 0, 0, 0, 0, 0, 0, 0, 0, 0, 0, 0, 0, 0, 0, 0, 0, 0, 0, 0, 0, 0, 0, 0, 0, 0, 0, 0, 0, 0, 0, 0, 0, 0, 0, 0, 0, 0, 0, 0, 0, 0, 0, 0, 0, 0, 0, 0, 0, 0, 0, 0, 2, 0] =
      [0x97b21f3f, 0x2361837e, 0x0a4c738b, 0xdcc3589b, 0xc9083e5a, 0x441db98b, 0x40113cea, 0x1ac90deb]"
    by (simp add: process.simps [of _ "[0, 0, 0, 0, 0, 0, 0, 0, 0, 0, 0, 0, 0, 0, 0, 0, 0, 0, 0, 0, 0, 0, 0, 0, 0, 0, 0, 0, 0, 0, 0, 0, 3, 144, 88, 198, 242, 192, 203, 73, 44, 83, 59, 10, 77, 20, 239, 119, 204, 15, 120, 171, 204, 206, 213, 40, 125, 132, 161, 162, 1, 28, 251, 129, 128, 0, 0, 0, 0, 0, 0, 0, 0, 0, 0, 0, 0, 0, 0, 0, 0, 0, 0, 0, 0, 0, 0, 0, 0, 0, 0, 0, 0, 0, 0, 0, 0, 0, 0, 0, 0, 0, 0, 0, 0, 0, 0, 0, 0, 0, 0, 0, 0, 0, 0, 0, 0, 0, 0, 0, 0, 0, 0, 0, 0, 0, 2, 0]"]
        process.simps [of _ "[128, 0, 0, 0, 0, 0, 0, 0, 0, 0, 0, 0, 0, 0, 0, 0, 0, 0, 0, 0, 0, 0, 0, 0, 0, 0, 0, 0, 0, 0, 0, 0, 0, 0, 0, 0, 0, 0, 0, 0, 0, 0, 0, 0, 0, 0, 0, 0, 0, 0, 0, 0, 0, 0, 0, 0, 0, 0, 0, 0, 0, 0, 2, 0]"]
        process.simps [of _ "[]"]
        c0 c1)
  then show ?thesis by (simp add: sha256_def p bytes_of_def)
qed

lemma sha256_123:
  "sha256 [1, 2, 3] =
     [3, 144, 88, 198, 242, 192, 203, 73, 44, 83, 59, 10, 77, 20, 239, 119, 204, 15, 120, 171, 204, 206, 213, 40, 125, 132, 161, 162, 1, 28, 251, 129]"
proof -
  have p: "pad [1, 2, 3] =
      [1, 2, 3, 128, 0, 0, 0, 0, 0, 0, 0, 0, 0, 0, 0, 0, 0, 0, 0, 0, 0, 0, 0, 0, 0, 0, 0, 0, 0, 0, 0, 0, 0, 0, 0, 0, 0, 0, 0, 0, 0, 0, 0, 0, 0, 0, 0, 0, 0, 0, 0, 0, 0, 0, 0, 0, 0, 0, 0, 0, 0, 0, 0, 24]"
    by (simp add: pad_def length_bytes_def replicate_numeral_Cons)
  have c0: "compress H256
      [0x01020380, 0x00000000, 0x00000000, 0x00000000, 0x00000000, 0x00000000, 0x00000000, 0x00000000, 0x00000000, 0x00000000, 0x00000000, 0x00000000, 0x00000000, 0x00000000, 0x00000000, 0x00000018] =
      [0x039058c6, 0xf2c0cb49, 0x2c533b0a, 0x4d14ef77, 0xcc0f78ab, 0xccced528, 0x7d84a1a2, 0x011cfb81]"
    by (simp add: sha256_eval)
  have "process H256 [1, 2, 3, 128, 0, 0, 0, 0, 0, 0, 0, 0, 0, 0, 0, 0, 0, 0, 0, 0, 0, 0, 0, 0, 0, 0, 0, 0, 0, 0, 0, 0, 0, 0, 0, 0, 0, 0, 0, 0, 0, 0, 0, 0, 0, 0, 0, 0, 0, 0, 0, 0, 0, 0, 0, 0, 0, 0, 0, 0, 0, 0, 0, 24] =
      [0x039058c6, 0xf2c0cb49, 0x2c533b0a, 0x4d14ef77, 0xcc0f78ab, 0xccced528, 0x7d84a1a2, 0x011cfb81]"
    by (simp add: process.simps [of _ "[1, 2, 3, 128, 0, 0, 0, 0, 0, 0, 0, 0, 0, 0, 0, 0, 0, 0, 0, 0, 0, 0, 0, 0, 0, 0, 0, 0, 0, 0, 0, 0, 0, 0, 0, 0, 0, 0, 0, 0, 0, 0, 0, 0, 0, 0, 0, 0, 0, 0, 0, 0, 0, 0, 0, 0, 0, 0, 0, 0, 0, 0, 0, 24]"]
        process.simps [of _ "[]"]
        c0)
  then show ?thesis by (simp add: sha256_def p bytes_of_def)
qed

subsection \<open>BlobHashTree.build\<close>

lemma fromBytes_32: "\<forall>data. length (H data) = 32 \<Longrightarrow> fromBytes H data = Inr (YHash (H data))"
  by (simp add: fromBytes_def new_YHash_def)

lemma parent_32:
  "\<forall>data. length (H data) = 32 \<Longrightarrow> \<exists>p. parent H l r = Inr p"
  by (simp add: parent_def fromBytes_32 Let_def)

lemma nextLevel_length: "nextLevel H xs = Inr ys \<Longrightarrow> length ys = (length xs + 1) div 2"
  by (induction H xs arbitrary: ys rule: nextLevel.induct) (auto split: sum.splits)

lemma nextLevel_32:
  "\<forall>data. length (H data) = 32 \<Longrightarrow> \<exists>ys. nextLevel H xs = Inr ys"
proof (induction H xs rule: nextLevel.induct)
  case (1 H)
  show ?case by simp
next
  case (2 H l)
  from parent_32 [OF 2, of l None] show ?case by auto
next
  case (3 H l r rest)
  from parent_32 [OF 3(2), of l "Some r"] obtain p where p: "parent H l (Some r) = Inr p" by auto
  from 3(1) [OF p 3(2)] obtain ps where "nextLevel H rest = Inr ps" by auto
  with p show ?case by simp
qed

lemma build_loop_32:
  "\<forall>data. length (H data) = 32 \<Longrightarrow> level \<noteq> [] \<Longrightarrow> \<exists>root. build_loop H level = Inr [root]"
proof (induction H level rule: build_loop.induct)
  case (1 H level)
  show ?case
  proof (cases "1 < length level")
    case True
    from nextLevel_32 [OF 1(2)] obtain level' where l': "nextLevel H level = Inr level'" by auto
    from nextLevel_length [OF l'] True have "level' \<noteq> []" by auto
    from 1(1) [OF True l' 1(2) this] l' True show ?thesis
      by (simp add: build_loop.simps [of H level])
  next
    case False
    with 1(3) obtain root where "level = [root]" by (cases level) auto
    then show ?thesis by (simp add: build_loop.simps [of H "[root]"])
  qed
qed

lemma build_32:
  "\<forall>data. length (H data) = 32 \<Longrightarrow> chunkHashes \<noteq> [] \<Longrightarrow> \<exists>t. build H chunkHashes = Inr t"
  using build_loop_32 [of H "map (\<lambda>h. TreeNode h None None) chunkHashes"]
  by (auto simp: build_def)

lemma build_one:
  "build H [d] = Inr \<lparr>tree_type = BMT, chunk_hashes = [d], tree = TreeNode d None None\<rparr>"
  by (simp add: build_def build_loop.simps)

lemma zero_bytes:
  "replicate 32 (0::byte) = [0, 0, 0, 0, 0, 0, 0, 0, 0, 0, 0, 0, 0, 0, 0, 0, 0, 0, 0, 0, 0, 0, 0, 0, 0, 0, 0, 0, 0, 0, 0, 0]"
  "UNBALANCED = [85, 78, 66, 65, 76, 65, 78, 67, 69, 68]"
  by (simp_all add: replicate_numeral_Cons UNBALANCED_def)

text \<open>
  C1. \<open>build\<close> is a function of the chunk digests. Given a digest primitive that returns
  32 bytes, as SHA-256 does, it returns a tree for every non-empty sequence of chunk digests,
  and a second run on a sequence with the same bytes returns the same tree, hence the same
  root digest.
\<close>

theorem build_deterministic:
  assumes "\<forall>data. length (H data) = 32"
    and "chunkHashes \<noteq> []"
    and "map bytes chunkHashes' = map bytes chunkHashes"
  shows "\<exists>t. build H chunkHashes = Inr t \<and> build H chunkHashes' = Inr t"
proof -
  have "inj bytes" by (rule injI) (simp add: YHash.expand)
  with assms(3) have "chunkHashes' = chunkHashes" by (simp add: inj_map_eq_map)
  with build_32 [OF assms(1,2)] show ?thesis by auto
qed

theorem build_deterministic_witness:
  "(\<forall>data. length (sha256 data) = 32)
   \<and> [YHash (replicate 32 0), YHash [3, 144, 88, 198, 242, 192, 203, 73, 44, 83, 59, 10, 77, 20, 239, 119, 204, 15, 120, 171, 204, 206, 213, 40, 125, 132, 161, 162, 1, 28, 251, 129]] \<noteq> []
   \<and> build sha256 [YHash (replicate 32 0), YHash [3, 144, 88, 198, 242, 192, 203, 73, 44, 83, 59, 10, 77, 20, 239, 119, 204, 15, 120, 171, 204, 206, 213, 40, 125, 132, 161, 162, 1, 28, 251, 129]] =
       Inr \<lparr>tree_type = BMT,
            chunk_hashes = [YHash (replicate 32 0), YHash [3, 144, 88, 198, 242, 192, 203, 73, 44, 83, 59, 10, 77, 20, 239, 119, 204, 15, 120, 171, 204, 206, 213, 40, 125, 132, 161, 162, 1, 28, 251, 129]],
            tree = TreeNode
              (YHash [151, 178, 31, 63, 35, 97, 131, 126, 10, 76, 115, 139, 220, 195, 88, 155, 201, 8, 62, 90, 68, 29, 185, 139, 64, 17, 60, 234, 26, 201, 13, 235])
              (Some (TreeNode (YHash (replicate 32 0)) None None))
              (Some (TreeNode (YHash [3, 144, 88, 198, 242, 192, 203, 73, 44, 83, 59, 10, 77, 20, 239, 119, 204, 15, 120, 171, 204, 206, 213, 40, 125, 132, 161, 162, 1, 28, 251, 129]) None None))\<rparr>"
proof -
  let ?ds = "[YHash (replicate 32 0), YHash [3, 144, 88, 198, 242, 192, 203, 73, 44, 83, 59, 10, 77, 20, 239, 119, 204, 15, 120, 171, 204, 206, 213, 40, 125, 132, 161, 162, 1, 28, 251, 129]]"
  have v: "build sha256 ?ds =
       Inr \<lparr>tree_type = BMT, chunk_hashes = ?ds,
            tree = TreeNode
              (YHash [151, 178, 31, 63, 35, 97, 131, 126, 10, 76, 115, 139, 220, 195, 88, 155, 201, 8, 62, 90, 68, 29, 185, 139, 64, 17, 60, 234, 26, 201, 13, 235])
              (Some (TreeNode (YHash (replicate 32 0)) None None))
              (Some (TreeNode (YHash [3, 144, 88, 198, 242, 192, 203, 73, 44, 83, 59, 10, 77, 20, 239, 119, 204, 15, 120, 171, 204, 206, 213, 40, 125, 132, 161, 162, 1, 28, 251, 129]) None None))\<rparr>"
    by (simp add: build_def build_loop.simps parent_def fromBytes_def new_YHash_def Let_def
        zero_bytes sha256_pair)
  from build_deterministic [OF sha256_length, of ?ds ?ds] sha256_length v
  show ?thesis by simp
qed

text \<open>
  C2, as the code has it. For a single chunk digest \<open>d\<close> the loop of \<open>build\<close> is not entered:
  the tree is the leaf of \<open>d\<close>, without children, and the root digest is \<open>d\<close> itself. The
  digest primitive is not applied and the sentinel is not used.
\<close>

theorem build_single:
  "build H [d] = Inr \<lparr>tree_type = BMT, chunk_hashes = [d], tree = TreeNode d None None\<rparr>"
  by (rule build_one)

text \<open>
  C2 as stated fails: with SHA-256, the root digest of the tree of the chunk digest of 32
  zero bytes is that digest, not the digest of its bytes followed by the sentinel, and the
  root has no child.
\<close>

theorem build_single_not_combined:
  "build sha256 [YHash (replicate 32 0)] =
     Inr \<lparr>tree_type = BMT, chunk_hashes = [YHash (replicate 32 0)],
          tree = TreeNode (YHash (replicate 32 0)) None None\<rparr>
   \<and> sha256 (replicate 32 0 @ UNBALANCED) =
       [126, 224, 195, 29, 29, 162, 246, 188, 29, 57, 15, 206, 199, 249, 4, 30, 220, 7, 119, 143, 225, 94, 117, 236, 205, 215, 91, 71, 165, 93, 5, 245]
   \<and> YHash (replicate 32 0) \<noteq> YHash (sha256 (replicate 32 0 @ UNBALANCED))"
  by (simp add: build_one zero_bytes sha256_zero_UNBALANCED)

subsection \<open>Doubles\<close>

lemma ilog2_bounds: "0 < n \<Longrightarrow> 2 ^ ilog2 n \<le> n \<and> n < 2 ^ Suc (ilog2 n)"
proof (induction n rule: ilog2.induct)
  case (1 n)
  show ?case
  proof (cases "n < 2")
    case True
    with 1(2) have "n = 1" by simp
    then show ?thesis by (simp add: ilog2.simps)
  next
    case False
    then have pos: "0 < n div 2" by simp
    from 1(1) [OF False pos] have lo: "2 ^ ilog2 (n div 2) \<le> n div 2"
      and hi: "n div 2 < 2 ^ Suc (ilog2 (n div 2))" by simp_all
    have eq: "ilog2 n = Suc (ilog2 (n div 2))" using False by (simp add: ilog2.simps [of n])
    from lo have "2 * 2 ^ ilog2 (n div 2) \<le> n" by linarith
    moreover from hi have "n < 2 * 2 ^ Suc (ilog2 (n div 2))" by linarith
    ultimately show ?thesis by (simp add: eq)
  qed
qed

lemma exponent_bounds:
  assumes "0 < x"
  shows "2 powi exponent x \<le> x" and "x < 2 powi (exponent x + 1)"
proof -
  obtain p q where pq: "quotient_of x = (p, q)" by (cases "quotient_of x")
  then have q: "0 < q" by (rule quotient_of_denom_pos)
  from pq have x: "x = of_int p / of_int q" by (rule quotient_of_div)
  with assms q have p: "0 < p" by (simp add: zero_less_divide_iff)
  define lp lq where "lp = ilog2 (nat p)" and "lq = ilog2 (nat q)"
  define d where "d = int lp - int lq"
  from ilog2_bounds [of "nat p"] p have "2 ^ lp \<le> nat p" "nat p < 2 ^ Suc lp" by (simp_all add: lp_def)
  then have "(of_nat (2 ^ lp) :: rat) \<le> of_nat (nat p)" "(of_nat (nat p) :: rat) < of_nat (2 ^ Suc lp)"
    by (simp_all only: of_nat_le_iff of_nat_less_iff)
  with p have plo: "(2::rat) ^ lp \<le> of_int p" and phi: "of_int p < (2::rat) ^ Suc lp"
    by simp_all
  from ilog2_bounds [of "nat q"] q have "2 ^ lq \<le> nat q" "nat q < 2 ^ Suc lq" by (simp_all add: lq_def)
  then have "(of_nat (2 ^ lq) :: rat) \<le> of_nat (nat q)" "(of_nat (nat q) :: rat) < of_nat (2 ^ Suc lq)"
    by (simp_all only: of_nat_le_iff of_nat_less_iff)
  with q have qlo: "(2::rat) ^ lq \<le> of_int q" and qhi: "of_int q < (2::rat) ^ Suc lq"
    by simp_all
  have qpos: "(0::rat) < of_int q" using q by simp
  have pd: "(2::rat) powi (int a - int b) = 2 ^ a / 2 ^ b" for a b
  proof -
    have "(2::rat) powi (int a - int b) = 2 powi int a / 2 powi int b"
      by (rule power_int_diff) simp
    then show ?thesis by (simp only: power_int_of_nat)
  qed
  have "d + 1 = int (Suc lp) - int lq" "d - 1 = int lp - int (Suc lq)"
    by (simp_all add: d_def)
  then have d1: "(2::rat) powi (d + 1) = 2 ^ Suc lp / 2 ^ lq"
    and d2: "(2::rat) powi (d - 1) = 2 ^ lp / 2 ^ Suc lq"
    by (simp_all only: pd)
  have "x < 2 ^ Suc lp / of_int q"
    unfolding x using phi qpos by (rule divide_strict_right_mono)
  also have "\<dots> \<le> 2 ^ Suc lp / 2 ^ lq"
    using qlo qpos by (intro divide_left_mono) simp_all
  finally have up: "x < 2 powi (d + 1)" by (simp only: d1)
  have "(2::rat) ^ lp / 2 ^ Suc lq < 2 ^ lp / of_int q"
    using qhi qpos by (intro divide_strict_left_mono) simp_all
  also have "\<dots> \<le> x"
    unfolding x using plo qpos by (intro divide_right_mono) simp_all
  finally have low: "2 powi (d - 1) < x" by (simp only: d2)
  have e: "exponent x = (if 2 powi d \<le> x then d else d - 1)"
    by (simp add: exponent_def pq d_def lp_def lq_def Let_def)
  show "2 powi exponent x \<le> x" using low by (simp add: e)
  show "x < 2 powi (exponent x + 1)" using up by (auto simp add: e)
qed


lemma exponent_unique:
  assumes "0 < x" and "2 powi e \<le> x" and "x < 2 powi (e + 1)"
  shows "exponent x = e"
proof (rule ccontr)
  assume ne: "exponent x \<noteq> e"
  show False
  proof (cases "exponent x < e")
    case True
    then have "(2::rat) powi (exponent x + 1) \<le> 2 powi e"
      by (intro power_int_increasing) simp_all
    with exponent_bounds(2) [OF assms(1)] assms(2) show False by simp
  next
    case False
    with ne have "(2::rat) powi (e + 1) \<le> 2 powi exponent x"
      by (intro power_int_increasing) simp_all
    with exponent_bounds(1) [OF assms(1)] assms(3) show False by simp
  qed
qed

lemma round_half_even_bounds:
  "\<lfloor>q\<rfloor> \<le> round_half_even q" "round_half_even q \<le> \<lceil>q\<rceil>"
  "q - 1 / 2 \<le> of_int (round_half_even q)" "of_int (round_half_even q) \<le> q + 1 / 2"
proof -
  show "\<lfloor>q\<rfloor> \<le> round_half_even q" by (simp add: round_half_even_def Let_def)
  show "round_half_even q \<le> \<lceil>q\<rceil>"
    by (auto simp: round_half_even_def Let_def ceiling_altdef)
  show "q - 1 / 2 \<le> of_int (round_half_even q)"
    by (auto simp: round_half_even_def Let_def) linarith+
  show "of_int (round_half_even q) \<le> q + 1 / 2"
    by (auto simp: round_half_even_def Let_def) linarith+
qed

lemma round_half_even_of_int: "round_half_even (of_int m) = m"
  by (simp add: round_half_even_def)


lemma double_pos:
  assumes "0 < x" and "2 powi e \<le> x" and "x < 2 powi (e + 1)"
  shows "double x = of_int (round_half_even (x / 2 powi (e - 52))) * 2 powi (e - 52)"
  using assms exponent_unique [OF assms] by (simp add: double_def Let_def)

lemma double_representable:
  assumes "2 ^ 52 \<le> m" and "m < 2 ^ 53"
  shows "double (of_int m * 2 powi k) = of_int m * 2 powi k"
proof -
  let ?x = "rat_of_int m * 2 powi k"
  from assms have mpos: "0 < m" by simp
  have p: "(0::rat) < 2 powi k" by simp
  have x: "0 < ?x" using mpos by simp
  have e52: "(2::rat) powi (k + 52) = 2 ^ 52 * 2 powi k" and e53: "(2::rat) powi (k + 52 + 1) = 2 ^ 53 * 2 powi k"
    by (simp_all add: power_int_add)
  have "(2::rat) ^ 52 \<le> of_int m" using assms(1) by (metis of_int_le_iff of_int_numeral of_int_power)
  then have lo: "2 powi (k + 52) \<le> ?x" unfolding e52 using p by simp
  have "of_int m < (2::rat) ^ 53" using assms(2) by (metis of_int_less_iff of_int_numeral of_int_power)
  then have hi: "?x < 2 powi (k + 52 + 1)" unfolding e53 using p by simp
  show ?thesis
    by (simp add: double_pos [OF x lo hi] round_half_even_of_int)
qed

lemma floor_rat_numeral: "\<lfloor>numeral a / numeral b :: rat\<rfloor> = numeral a div numeral b"
  using floor_divide_of_int_eq [of "numeral a" "numeral b", where ?'a = rat] by simp

lemma double_1: "double 1 = 1"
  using double_representable [of "2 ^ 52" "- 52"] by (simp add: power_int_minus)

lemma double_100: "double 100 = 100"
  using double_representable [of "100 * 2 ^ 46" "- 46"] by (simp add: power_int_minus)

lemma percentage_all: "0 < n \<Longrightarrow> percentage n n = 100"
  by (simp add: percentage_def double_1 double_100 Math_round_def floor_rat_numeral)

lemma double_dyadic:
  assumes "0 < m" and "m < 2 ^ 53"
  shows "double (of_int m * 2 powi j) = of_int m * 2 powi j"
proof -
  define x :: rat where "x = of_int m * 2 powi j"
  define e where "e = exponent x"
  have xpos: "0 < x" using assms(1) by (simp add: x_def)
  have lo: "2 powi e \<le> x" and hi: "x < 2 powi (e + 1)"
    using exponent_bounds [OF xpos] by (simp_all add: e_def)
  have "rat_of_int m < 2 ^ 53" using assms(2) by (metis of_int_less_iff of_int_numeral of_int_power)
  then have "x < 2 ^ 53 * 2 powi j" by (simp add: x_def)
  also have "\<dots> = 2 powi (53 + j)" by (simp add: power_int_add)
  finally have "(2::rat) powi e < 2 powi (53 + j)" using lo by simp
  have "e < 53 + j"
  proof (rule ccontr)
    assume "\<not> e < 53 + j"
    then have "(2::rat) powi (53 + j) \<le> 2 powi e" by (intro power_int_increasing) simp_all
    with \<open>(2::rat) powi e < 2 powi (53 + j)\<close> show False by simp
  qed
  then have d: "0 \<le> j - (e - 52)" by simp
  define t where "t = nat (j - (e - 52))"
  have "x / 2 powi (e - 52) = of_int m * (2 powi j / 2 powi (e - 52))" by (simp add: x_def)
  also have "2 powi j / (2::rat) powi (e - 52) = 2 powi (j - (e - 52))" by (simp add: power_int_diff)
  also have "\<dots> = 2 ^ t" using d by (simp add: t_def power_int_def)
  finally have q: "x / 2 powi (e - 52) = of_int (m * 2 ^ t)" by simp
  have "double x = of_int (round_half_even (x / 2 powi (e - 52))) * 2 powi (e - 52)"
    using double_pos [OF xpos lo hi] .
  also have "\<dots> = x / 2 powi (e - 52) * 2 powi (e - 52)"
    by (simp only: q round_half_even_of_int)
  also have "\<dots> = x" by simp
  finally show ?thesis by (simp add: x_def)
qed

lemma double_quarters:
  "double (1 / 4) = 1 / 4" "double (1 / 2) = 1 / 2" "double (3 / 4) = 3 / 4"
  "double 25 = 25" "double 50 = 50" "double 75 = 75"
  using double_dyadic [of 1 "- 2"] double_dyadic [of 1 "- 1"] double_dyadic [of 3 "- 2"]
    double_dyadic [of 25 0] double_dyadic [of 50 0] double_dyadic [of 75 0]
  by (simp_all add: power_int_minus)

lemma percentage_quarters:
  "percentage 4 1 = 25" "percentage 4 (Suc 0) = 25" "percentage 4 2 = 50" "percentage 4 3 = 75" "percentage 4 4 = 100"
  by (simp_all add: percentage_def double_quarters double_1 double_100 Math_round_def floor_rat_numeral)

text \<open>
  Rounding to a double changes a positive number by at most the fraction \<open>1 / 2 ^ 53\<close> of
  it. Hence the percentage that the callback gets is an integer nearest to the exact
  percentage: the two roundings to doubles move the product by less than the distance
  between \<open>100 * k / n\<close> and the nearest half of an odd integer other than itself.
\<close>

lemma double_error:
  assumes "0 < x"
  shows "\<bar>double x - x\<bar> \<le> x / 2 ^ 53"
proof -
  define e where "e = exponent x"
  define u :: rat where "u = 2 powi (e - 52)"
  define r where "r = round_half_even (x / u)"
  have u: "0 < u" by (simp add: u_def)
  from exponent_bounds [OF assms] have lo: "2 powi e \<le> x" and hi: "x < 2 powi (e + 1)"
    by (simp_all add: e_def)
  have d: "double x = of_int r * u"
    using double_pos [OF assms lo hi] by (simp add: r_def u_def)
  from round_half_even_bounds(3,4) [of "x / u"]
  have "\<bar>of_int r - x / u\<bar> \<le> 1 / 2" unfolding r_def by linarith
  then have "\<bar>of_int r - x / u\<bar> * u \<le> 1 / 2 * u" using u by (simp add: mult_right_mono)
  moreover have "\<bar>of_int r - x / u\<bar> * u = \<bar>of_int r * u - x\<bar>"
  proof -
    have "\<bar>of_int r - x / u\<bar> * u = \<bar>(of_int r - x / u) * u\<bar>" using u by (simp add: abs_mult)
    also have "(of_int r - x / u) * u = of_int r * u - x" using u by (simp add: algebra_simps)
    finally show ?thesis .
  qed
  ultimately have "\<bar>double x - x\<bar> \<le> u / 2" by (simp add: d)
  moreover have "u / 2 = 2 powi e / 2 ^ 53"
    by (simp add: u_def power_int_diff)
  moreover have "2 powi e / 2 ^ 53 \<le> x / 2 ^ 53" using lo by (simp add: divide_right_mono)
  ultimately show ?thesis by simp
qed

lemma percentage_nearest:
  assumes n: "0 < n" "n \<le> 2 ^ 44" and k: "0 < k" "k \<le> n"
  shows "\<bar>of_int (percentage n k) - 100 * of_nat k / of_nat n\<bar> \<le> (1 / 2 :: rat)"
proof -
  define x :: rat where "x = of_nat k / of_nat n"
  define q where "q = double x"
  define y where "y = q * 100"
  define p where "p = double y"
  define m where "m = percentage n k"
  define eps :: rat where "eps = 1 / 2 ^ 53"
  have x: "0 < x" "x \<le> 1" using n k by (simp_all add: x_def)
  have m: "m = \<lfloor>p + 1 / 2\<rfloor>"
    using n by (simp add: m_def percentage_def Math_round_def p_def y_def q_def x_def)
  have eq: "\<bar>q - x\<bar> \<le> x * eps" using double_error [OF x(1)] by (simp add: q_def eps_def)
  have epos: "0 < eps" "eps < 1" by (simp_all add: eps_def)
  have qx: "\<bar>q - x\<bar> \<le> eps"
  proof -
    have "x * eps \<le> 1 * eps" using x(2) epos(1) by (intro mult_right_mono) simp_all
    with eq show ?thesis by simp
  qed
  have qpos: "0 < q"
  proof -
    have "x * eps < x * 1" using x(1) epos(2) by (intro mult_strict_left_mono) simp_all
    with eq show ?thesis by (simp add: abs_le_iff)
  qed
  have qle: "q \<le> 1 + eps" using qx x(2) by (simp add: abs_le_iff)
  have ypos: "0 < y" using qpos by (simp add: y_def)
  have ey: "\<bar>p - y\<bar> \<le> y * eps" using double_error [OF ypos] by (simp add: p_def eps_def)
  have yle: "y \<le> 100 * (1 + eps)" using qle by (simp add: y_def)
  have "y * eps \<le> 100 * (1 + eps) * eps" using yle epos(1) by (intro mult_right_mono) simp_all
  with ey have py: "\<bar>p - y\<bar> \<le> 100 * (1 + eps) * eps" by simp
  have yx: "\<bar>y - 100 * x\<bar> \<le> 100 * eps"
  proof -
    have "y - 100 * x = 100 * (q - x)" by (simp add: y_def algebra_simps)
    then have "\<bar>y - 100 * x\<bar> = \<bar>100 * (q - x)\<bar>" by (rule arg_cong)
    then have "\<bar>y - 100 * x\<bar> = 100 * \<bar>q - x\<bar>" by (simp only: abs_mult)
    with qx show ?thesis by simp
  qed
  have "\<bar>p - 100 * x\<bar> \<le> \<bar>p - y\<bar> + \<bar>y - 100 * x\<bar>" by simp
  with py yx have "\<bar>p - 100 * x\<bar> \<le> 100 * (1 + eps) * eps + 100 * eps" by simp
  also have "\<dots> < 1 / 2 ^ 45" by (simp add: eps_def)
  finally have px: "\<bar>p - 100 * x\<bar> < 1 / 2 ^ 45" .
  have nn: "(of_nat n :: rat) \<le> 2 ^ 44" using n(2) by (metis of_nat_le_iff of_nat_numeral of_nat_power)
  have npos: "(0 :: rat) < of_nat n" using n(1) by simp
  have small: "2 * of_nat n * \<bar>p - 100 * x\<bar> < 1"
  proof -
    have "2 * of_nat n * \<bar>p - 100 * x\<bar> \<le> 2 * 2 ^ 44 * \<bar>p - 100 * x\<bar>"
      using nn by (intro mult_right_mono) simp_all
    also have "\<dots> < 2 * 2 ^ 44 * (1 / 2 ^ 45)" using px by (intro mult_strict_left_mono) simp_all
    also have "\<dots> = 1" by simp
    finally show ?thesis .
  qed
  have m1: "of_int m \<le> p + 1 / 2" and m2: "p - 1 / 2 < of_int m"
    unfolding m by linarith+
  define z :: int where "z = 2 * m * int n - 200 * int k"
  have z: "of_int z = 2 * of_nat n * (of_int m - 100 * x)"
    using npos by (simp add: z_def x_def algebra_simps)
  have "\<bar>of_int m - 100 * x\<bar> \<le> 1 / 2 + \<bar>p - 100 * x\<bar>" using m1 m2 by (simp add: abs_le_iff) linarith
  then have "2 * of_nat n * \<bar>of_int m - 100 * x\<bar> \<le> 2 * of_nat n * (1 / 2 + \<bar>p - 100 * x\<bar>)"
    using npos by (intro mult_left_mono) simp_all
  also have "\<dots> = of_nat n + 2 * of_nat n * \<bar>p - 100 * x\<bar>" by (simp add: algebra_simps)
  also have "\<dots> < of_nat n + 1" using small by simp
  finally have "2 * of_nat n * \<bar>of_int m - 100 * x\<bar> < (of_nat n + 1 :: rat)" .
  moreover have "2 * of_nat n * \<bar>of_int m - 100 * x\<bar> = \<bar>rat_of_int z\<bar>"
    using npos by (simp add: z abs_mult)
  ultimately have "\<bar>rat_of_int z\<bar> < of_int (int n + 1)" by simp
  then have "\<bar>z\<bar> < int n + 1" by (metis of_int_abs of_int_less_iff)
  then have "\<bar>z\<bar> \<le> int n" by simp
  then have "\<bar>rat_of_int z\<bar> \<le> of_nat n" by (metis of_int_abs of_int_le_iff of_int_of_nat_eq)
  then have "2 * of_nat n * \<bar>of_int m - 100 * x\<bar> \<le> of_nat n * 1"
    using npos by (simp add: z abs_mult)
  then have "\<bar>of_int m - 100 * x\<bar> \<le> 1 / 2" using npos by simp
  then show ?thesis by (simp add: m_def x_def)
qed

text \<open>
  When the exact percentage lies halfway between two integers the doubles decide: 23 of 40
  gives the product \<open>57.49999999999999\<close> and 57, one of 8 gives \<open>12.5\<close> and 13.
\<close>

lemma double_23_40: "double (23 / 40) = 2589569785738035 / 4503599627370496"
proof -
  have "double (23 / 40) = of_int (round_half_even ((23 / 40) / 2 powi (- 1 - 52))) * 2 powi (- 1 - 52)"
    by (rule double_pos) (simp_all add: power_int_minus)
  also have "(23 / 40 :: rat) / 2 powi (- 1 - 52) = 25895697857380352 / 5"
    by (simp add: power_int_minus)
  also have "round_half_even (25895697857380352 / 5) = 5179139571476070"
    by (simp add: round_half_even_def Let_def floor_rat_numeral)
  finally show ?thesis by (simp add: power_int_minus)
qed

lemma double_23_40_100:
  "double (64739244643450875 / 1125899906842624) = 8092405580431359 / 140737488355328"
proof -
  have "double (64739244643450875 / 1125899906842624)
      = of_int (round_half_even ((64739244643450875 / 1125899906842624) / 2 powi (5 - 52))) * 2 powi (5 - 52)"
    by (rule double_pos) (simp_all add: power_int_minus)
  also have "(64739244643450875 / 1125899906842624 :: rat) / 2 powi (5 - 52) = 64739244643450875 / 8"
    by (simp add: power_int_minus)
  also have "round_half_even (64739244643450875 / 8) = 8092405580431359"
    by (simp add: round_half_even_def Let_def floor_rat_numeral)
  finally show ?thesis by (simp add: power_int_minus)
qed

lemma percentage_40_23: "percentage 40 23 = 57"
  by (simp add: percentage_def double_23_40 double_23_40_100 Math_round_def floor_rat_numeral)

lemma double_eighths:
  "double (1 / 8) = 1 / 8" "double (3 / 8) = 3 / 8" "double (5 / 8) = 5 / 8" "double (7 / 8) = 7 / 8"
  "double (25 / 2) = 25 / 2" "double (75 / 2) = 75 / 2" "double (125 / 2) = 125 / 2"
  "double (175 / 2) = 175 / 2"
  using double_dyadic [of 1 "- 3"] double_dyadic [of 3 "- 3"] double_dyadic [of 5 "- 3"]
    double_dyadic [of 7 "- 3"] double_dyadic [of 25 "- 1"] double_dyadic [of 75 "- 1"]
    double_dyadic [of 125 "- 1"] double_dyadic [of 175 "- 1"]
  by (simp_all add: power_int_minus)

lemma percentage_eighths:
  "percentage 8 1 = 13" "percentage 8 (Suc 0) = 13" "percentage 8 2 = 25" "percentage 8 3 = 38"
  "percentage 8 4 = 50" "percentage 8 5 = 63" "percentage 8 6 = 75" "percentage 8 7 = 88"
  "percentage 8 8 = 100"
  by (simp_all add: percentage_def double_eighths double_quarters double_1 double_100
      Math_round_def floor_rat_numeral)

lemma ceil_double_quotient:
  fixes S C :: nat
  assumes S: "0 < S" "S < 2 ^ 53" and C: "0 < C"
  shows "Math_ceil (double (of_nat S / of_nat C)) = \<lceil>(of_nat S / of_nat C :: rat)\<rceil>"
proof -
  define x :: rat where "x = of_nat S / of_nat C"
  define k where "k = \<lceil>x\<rceil>"
  define e where "e = exponent x"
  have xpos: "0 < x" using S C by (simp add: x_def)
  have Cr: "(0::rat) < of_nat C" using C by simp
  have lo: "2 powi e \<le> x" and hi: "x < 2 powi (e + 1)"
    using exponent_bounds [OF xpos] by (simp_all add: e_def)
  have "x \<le> of_nat S" using C S by (simp add: x_def field_simps mult_le_cancel_left1)
  also have "\<dots> < 2 ^ 53" using S(2) by (metis of_nat_less_iff of_nat_numeral of_nat_power)
  finally have x53: "x < 2 ^ 53" .
  have e52: "e \<le> 52"
  proof (rule ccontr)
    assume "\<not> e \<le> 52"
    then have "(2::rat) powi 53 \<le> 2 powi e" by (intro power_int_increasing) simp_all
    with lo x53 show False by simp
  qed
  define j where "j = nat (52 - e)"
  define N :: int where "N = 2 ^ j"
  have Npos: "0 < N" by (simp add: N_def)
  have u: "(2::rat) powi (e - 52) = 1 / of_int N"
  proof -
    have "e - 52 = - int j" using e52 by (simp add: j_def)
    then have "(2::rat) powi (e - 52) = inverse (2 powi int j)" by (simp only: power_int_minus)
    then show ?thesis by (simp add: N_def inverse_eq_divide)
  qed
  define m where "m = round_half_even (x * of_int N)"
  have d: "double x = of_int m / of_int N"
    by (simp add: double_pos [OF xpos lo hi] u m_def)
  have Nr: "(0::rat) < of_int N" using Npos by simp
  \<comment> \<open>upper bound\<close>
  have "x \<le> of_int k" by (simp add: k_def)
  then have "x * of_int N \<le> of_int (k * N)" using Nr by simp
  then have "\<lceil>x * of_int N\<rceil> \<le> k * N" by (simp add: ceiling_le_iff)
  with round_half_even_bounds(2) [of "x * of_int N"] have "m \<le> k * N" by (simp add: m_def)
  then have "rat_of_int m \<le> of_int (k * N)" by (simp only: of_int_le_iff)
  then have up: "double x \<le> of_int k" using Nr by (simp add: d field_simps)
  \<comment> \<open>lower bound\<close>
  have "of_int k - 1 < x" by (simp add: k_def) linarith
  then have "of_int (k - 1) * of_nat C < (of_nat S :: rat)" using Cr by (simp add: x_def field_simps)
  then have "(k - 1) * int C < int S" by (metis of_int_less_iff of_int_mult of_int_of_nat_eq)
  then have "(k - 1) * int C + 1 \<le> int S" by simp
  then have "rat_of_int ((k - 1) * int C + 1) \<le> of_int (int S)" by (simp only: of_int_le_iff)
  then have "(of_int (k - 1) * of_nat C + 1) / of_nat C \<le> (of_nat S :: rat) / of_nat C"
    using Cr by (intro divide_right_mono) simp_all
  moreover have "(of_int (k - 1) * of_nat C + 1) / of_nat C = (of_int (k - 1) :: rat) + 1 / of_nat C"
    using Cr by (simp add: add_divide_distrib)
  ultimately have gap: "of_int (k - 1) + 1 / of_nat C \<le> x" by (simp add: x_def)
  have "of_nat C * 2 powi e \<le> (of_nat S :: rat)" using lo Cr by (simp add: x_def field_simps)
  also have "\<dots> < 2 ^ 53" using S(2) by (metis of_nat_less_iff of_nat_numeral of_nat_power)
  finally have "of_nat C * 2 powi e < (2::rat) powi 53" by simp
  then have "of_nat C < (2::rat) powi 53 / 2 powi e" by (simp add: field_simps)
  also have "\<dots> = 2 powi (53 - e)" by (simp add: power_int_diff)
  also have "\<dots> = 2 * of_int N"
  proof -
    have "53 - e = int (Suc j)" using e52 by (simp add: j_def)
    then have "(2::rat) powi (53 - e) = 2 ^ Suc j" by (simp only: power_int_of_nat)
    then show ?thesis by (simp add: N_def)
  qed
  finally have CN: "of_nat C < 2 * rat_of_int N" .
  then have "1 / 2 < rat_of_int N / of_nat C" using Cr by (simp add: field_simps)
  then have "of_int (k - 1) * of_int N + 1 / 2 < (of_int (k - 1) + 1 / of_nat C) * rat_of_int N"
    by (simp add: algebra_simps)
  also have "\<dots> \<le> x * of_int N" using gap Nr by (intro mult_right_mono) simp_all
  finally have "of_int (k - 1) * of_int N < x * of_int N - 1 / 2" by simp
  also have "\<dots> \<le> of_int m" using round_half_even_bounds(3) [of "x * of_int N"] by (simp add: m_def)
  finally have "rat_of_int ((k - 1) * N) < of_int m" by simp
  then have "of_int (k - 1) < double x" using Nr by (simp add: d field_simps)
  then have low: "of_int k - 1 < double x" by simp
  from low up have "\<lceil>double x\<rceil> = k" by (intro ceiling_unique) simp_all
  then show ?thesis by (simp add: Math_ceil_def x_def k_def)
qed


subsection \<open>createFileChunks\<close>

lemma chunk_loop_finite:
  "index \<le> n \<Longrightarrow>
   chunk_loop fileSize chunkSize (enat n) index chunks =
     Some (chunks @ map (\<lambda>i. (i * chunkSize, min (i * chunkSize + chunkSize) fileSize)) [index..<n])"
proof (induction "n - index" arbitrary: index chunks)
  case 0
  then have "index = n" by simp
  then show ?case by (simp add: chunk_loop.simps [of _ _ _ n])
next
  case (Suc d)
  then have lt: "index < n" and d: "d = n - (index + 1)" and le: "index + 1 \<le> n" by simp_all
  from lt have upt: "[index..<n] = index # [index + 1..<n]" by (simp add: upt_conv_Cons)
  show ?case
    using lt Suc(1) [OF d le] by (simp add: chunk_loop.simps [of _ _ _ index] upt Let_def)
qed

lemma totalChunks_exact:
  assumes "0 < S" "S < 2 ^ 53" "0 < C"
  shows "totalChunks S C = enat (nat \<lceil>(of_nat S / of_nat C :: rat)\<rceil>)"
  using assms by (simp add: totalChunks_def ceil_double_quotient)

lemma ceiling_int_div:
  assumes "0 < (C::nat)"
  shows "\<lceil>(of_nat S / of_nat C :: rat)\<rceil> = int ((S + C - 1) div C)"
proof -
  define k where "k = (S + C - 1) div C"
  define t r where "t = k * C" and "r = (S + C - 1) mod C"
  have "S + C - 1 = t + r" by (simp add: k_def t_def r_def)
  moreover have "r < C" using assms by (simp add: r_def)
  ultimately have "S \<le> t" and "S = 0 \<or> t - C < S"
    using assms by arith+
  then have hi: "S \<le> k * C" and lo: "S = 0 \<or> (k - 1) * C < S"
    by (simp_all add: t_def diff_mult_distrib)
  have Cr: "(0::rat) < of_nat C" using assms by simp
  have "\<lceil>(of_nat S / of_nat C :: rat)\<rceil> = int k"
  proof (cases "S = 0")
    case True
    then have "k = 0" using assms by (simp add: k_def)
    with True show ?thesis by simp
  next
    case False
    with lo have lo': "(k - 1) * C < S" by simp
    from False hi have kpos: "0 < k" by (cases k) auto
    have "(of_nat S :: rat) \<le> of_nat (k * C)" using hi by (simp only: of_nat_le_iff)
    then have a: "(of_nat S / of_nat C :: rat) \<le> of_int (int k)" using Cr by (simp add: field_simps)
    have "(of_nat ((k - 1) * C) :: rat) < of_nat S" using lo' by (simp only: of_nat_less_iff)
    then have "of_nat (k - 1) < (of_nat S / of_nat C :: rat)" using Cr by (simp add: field_simps)
    then have b: "of_int (int k) - 1 < (of_nat S / of_nat C :: rat)" using kpos by (simp add: of_nat_diff)
    from b a show ?thesis by (rule ceiling_unique)
  qed
  then show ?thesis by (simp add: k_def)
qed

lemma ceiling_nat_div:
  "0 < (C::nat) \<Longrightarrow> nat \<lceil>(of_nat S / of_nat C :: rat)\<rceil> = (S + C - 1) div C"
  by (simp add: ceiling_int_div)


lemma createFileChunks_eq:
  assumes "0 < S" "S < 2 ^ 53" "0 < C"
  shows "createFileChunks S C =
           Some (map (\<lambda>i. (i * C, min (i * C + C) S)) [0..<(S + C - 1) div C])"
  using chunk_loop_finite [of 0 "(S + C - 1) div C" S C "[]"] assms
  by (simp add: createFileChunks_def totalChunks_exact ceiling_nat_div)

lemma chunk_count_bounds:
  assumes "0 < S" "0 < (C::nat)"
  shows "((S + C - 1) div C - 1) * C < S" and "S \<le> (S + C - 1) div C * C" and "0 < (S + C - 1) div C"
proof -
  define k where "k = (S + C - 1) div C"
  define t r where "t = k * C" and "r = (S + C - 1) mod C"
  have "S + C - 1 = t + r" by (simp add: k_def t_def r_def)
  moreover have "r < C" using assms by (simp add: r_def)
  ultimately have "S \<le> t" and "t - C < S"
    using assms by arith+
  then show "((S + C - 1) div C - 1) * C < S" and hi: "S \<le> (S + C - 1) div C * C" 
    by (simp_all add: t_def k_def diff_mult_distrib)
  with assms(1) show "0 < (S + C - 1) div C" by (cases "(S + C - 1) div C") auto
qed

text \<open>
  C6. For a file of size \<open>S\<close>, positive and below \<open>2 ^ 53\<close> as every file size is, and a
  positive chunk size \<open>C\<close>, \<open>createFileChunks\<close> returns \<open>\<lceil>S / C\<rceil>\<close> chunks; chunk \<open>i\<close> is the
  range from \<open>i * C\<close> to \<open>min ((i + 1) * C) S\<close>; no chunk is empty, the first starts at 0, each
  starts where the one before ends, the last ends at \<open>S\<close>, no two overlap, and together they
  are the range from 0 to \<open>S\<close>.
\<close>

theorem createFileChunks_ranges:
  assumes "0 < S" and "S < 2 ^ 53" and "0 < C"
  shows "\<exists>chunks. createFileChunks S C = Some chunks
     \<and> int (length chunks) = \<lceil>(of_nat S / of_nat C :: rat)\<rceil>
     \<and> (\<forall>i < length chunks. chunks ! i = (i * C, min ((i + 1) * C) S))
     \<and> (\<forall>i < length chunks. fst (chunks ! i) < snd (chunks ! i))
     \<and> fst (chunks ! 0) = 0
     \<and> (\<forall>i. i + 1 < length chunks \<longrightarrow> snd (chunks ! i) = fst (chunks ! (i + 1)))
     \<and> snd (chunks ! (length chunks - 1)) = S
     \<and> (\<forall>i j. i < j \<and> j < length chunks \<longrightarrow>
           {fst (chunks ! i)..<snd (chunks ! i)} \<inter> {fst (chunks ! j)..<snd (chunks ! j)} = {})
     \<and> (\<Union>i < length chunks. {fst (chunks ! i)..<snd (chunks ! i)}) = {0..<S}"
proof -
  define n where "n = (S + C - 1) div C"
  define chunks where "chunks = map (\<lambda>i. (i * C, min (i * C + C) S)) [0..<n]"
  have eq: "createFileChunks S C = Some chunks"
    using createFileChunks_eq [OF assms] by (simp add: chunks_def n_def)
  have len: "length chunks = n" by (simp add: chunks_def)
  have nth: "chunks ! i = (i * C, min ((i + 1) * C) S)" if "i < n" for i
    using that by (simp add: chunks_def algebra_simps)
  have lo: "(n - 1) * C < S" and hi: "S \<le> n * C" and npos: "0 < n"
    using chunk_count_bounds [OF assms(1,3)] by (simp_all add: n_def)
  have start_lt: "i * C < S" if "i < n" for i
  proof -
    from that have "i \<le> n - 1" by simp
    then have "i * C \<le> (n - 1) * C" by (rule mult_le_mono1)
    with lo show ?thesis by linarith
  qed
  have cnt: "int (length chunks) = \<lceil>(of_nat S / of_nat C :: rat)\<rceil>"
    using ceiling_int_div [OF assms(3), of S] by (simp add: len n_def)
  have nonempty: "\<forall>i < length chunks. fst (chunks ! i) < snd (chunks ! i)"
    using start_lt assms(3) by (simp add: len nth)
  have first: "fst (chunks ! 0) = 0" using npos by (simp add: nth)
  have contiguous: "\<forall>i. i + 1 < length chunks \<longrightarrow> snd (chunks ! i) = fst (chunks ! (i + 1))"
  proof (intro allI impI)
    fix i assume i: "i + 1 < length chunks"
    then have "(i + 1) * C < S" using start_lt [of "i + 1"] by (simp add: len)
    with i show "snd (chunks ! i) = fst (chunks ! (i + 1))" by (simp add: len nth)
  qed
  have last: "snd (chunks ! (length chunks - 1)) = S"
    using npos hi by (simp add: len nth)
  have disjoint: "\<forall>i j. i < j \<and> j < length chunks \<longrightarrow>
      {fst (chunks ! i)..<snd (chunks ! i)} \<inter> {fst (chunks ! j)..<snd (chunks ! j)} = {}"
  proof (intro allI impI)
    fix i j assume ij: "i < j \<and> j < length chunks"
    then have "i + 1 \<le> j" by simp
    then have "(i + 1) * C \<le> j * C" by (rule mult_le_mono1)
    with ij show "{fst (chunks ! i)..<snd (chunks ! i)} \<inter> {fst (chunks ! j)..<snd (chunks ! j)} = {}"
      by (auto simp: len nth)
  qed
  have union: "(\<Union>i < length chunks. {fst (chunks ! i)..<snd (chunks ! i)}) = {0..<S}"
  proof (rule set_eqI)
    fix x
    show "x \<in> (\<Union>i < length chunks. {fst (chunks ! i)..<snd (chunks ! i)}) \<longleftrightarrow> x \<in> {0..<S}"
    proof
      assume "x \<in> (\<Union>i < length chunks. {fst (chunks ! i)..<snd (chunks ! i)})"
      then show "x \<in> {0..<S}" by (auto simp: len nth)
    next
      assume x: "x \<in> {0..<S}"
      define i where "i = x div C"
      have "x = i * C + x mod C" by (simp add: i_def)
      moreover have "x mod C < C" using assms(3) by simp
      ultimately have a: "i * C \<le> x" and b: "x < (i + 1) * C"
        by simp_all
      have "i < n"
      proof (rule ccontr)
        assume "\<not> i < n"
        then have "n \<le> i" by simp
        then have "n * C \<le> i * C" by (rule mult_le_mono1)
        with a hi x show False by simp
      qed
      with a b x show "x \<in> (\<Union>i < length chunks. {fst (chunks ! i)..<snd (chunks ! i)})"
        by (auto simp: len nth intro!: bexI [of _ i])
    qed
  qed
  from eq cnt nth nonempty first contiguous last disjoint union show ?thesis
    by (intro exI [of _ chunks] conjI) (simp_all add: len)
qed

theorem createFileChunks_ranges_witness:
  "(0::nat) < 5 \<and> (5::nat) < 2 ^ 53 \<and> (0::nat) < 2
   \<and> createFileChunks 5 2 = Some [(0, 2), (2, 4), (4, 5)]
   \<and> \<lceil>(of_nat 5 / of_nat 2 :: rat)\<rceil> = 3"
proof -
  have h: "(0::nat) < 5" "(5::nat) < 2 ^ 53" "(0::nat) < 2" by simp_all
  from createFileChunks_ranges [OF h] obtain chunks where
    c: "createFileChunks 5 2 = Some chunks"
    and l: "int (length chunks) = \<lceil>(of_nat 5 / of_nat 2 :: rat)\<rceil>"
    and n: "\<forall>i < length chunks. chunks ! i = (i * 2, min ((i + 1) * 2) 5)"
    by blast
  have three: "\<lceil>(of_nat 5 / of_nat 2 :: rat)\<rceil> = 3"
    by (simp add: ceiling_unique)
  with l have len: "length chunks = 3" by simp
  then obtain a b d where abd: "chunks = [a, b, d]"
    by (cases chunks; simp) (metis (no_types) Suc_length_conv length_0_conv numeral_2_eq_2 One_nat_def)
  from n len have "chunks ! 0 = (0, 2)" "chunks ! 1 = (2, 4)" "chunks ! 2 = (4, 5)" by simp_all
  with abd have "chunks = [(0, 2), (2, 4), (4, 5)]" by simp
  with c three h show ?thesis by simp
qed

subsection \<open>parallelUpload\<close>

lemma W_pos: "0 < MAXIMUM_CONCURRENT_UPLOADS"
  by (simp add: MAXIMUM_CONCURRENT_UPLOADS_def)

lemma uploads_append: "uploads (xs @ ys) = uploads xs @ uploads ys"
  by (induction xs rule: uploads.induct) simp_all

lemma uploaded_append: "uploaded (xs @ ys) = uploaded xs @ uploaded ys"
  by (induction xs rule: uploaded.induct) simp_all

lemma progress_append: "progress (xs @ ys) = progress xs @ progress ys"
  by (induction xs rule: progress.induct) simp_all

lemma registered_append: "registered (xs @ ys) = registered xs @ registered ys"
  by (induction xs rule: registered.induct) simp_all

lemma step_out_of_range: "length (workers s) \<le> w \<Longrightarrow> step env n s w = s"
  by (simp add: step_def)

lemma workers_step:
  "w < length (workers s) \<Longrightarrow> workers (step env n s w) = (workers s)[w := wstep env n (workers s ! w)]"
  by (cases "phase (workers s ! w)") (simp_all add: step_def wstep_def Let_def)

lemma trace_step:
  "w < length (workers s) \<Longrightarrow>
   trace (step env n s w) = trace s @
     (case phase (workers s ! w) of
        Ready \<Rightarrow> if loop_i (workers s ! w) < n then [UploadChunk w (loop_i (workers s ! w))] else []
      | Uploading \<Rightarrow>
          if chunk_ok env (loop_i (workers s ! w))
          then Uploaded (loop_i (workers s ! w)) #
            (if onProgress env then [Progress (percentage n (Suc (completedChunks s)))] else [])
          else []
      | _ \<Rightarrow> [])"
  by (cases "phase (workers s ! w)") (simp_all add: step_def Let_def)

lemma completedChunks_step:
  "w < length (workers s) \<Longrightarrow>
   completedChunks (step env n s w) =
     (if phase (workers s ! w) = Uploading \<and> chunk_ok env (loop_i (workers s ! w))
      then Suc (completedChunks s) else completedChunks s)"
  by (cases "phase (workers s ! w)") (simp_all add: step_def Let_def)

lemma settled_step:
  "w < length (workers s) \<Longrightarrow>
   settled (step env n s w) =
     (case phase (workers s ! w) of
        Ready \<Rightarrow>
          if loop_i (workers s ! w) < n then settled s
          else if settled s = None \<and> all_finished ((workers s)[w := wstep env n (workers s ! w)])
               then Some (Inr ()) else settled s
      | Uploading \<Rightarrow>
          if chunk_ok env (loop_i (workers s ! w)) then settled s
          else if settled s = None then Some (Inl (ChunkUploadFailed (loop_i (workers s ! w))))
               else settled s
      | _ \<Rightarrow> settled s)"
  by (cases "phase (workers s ! w)") (simp_all add: step_def wstep_def Let_def)

lemma parallelUpload_Nil: "parallelUpload env n [] = initial_pool"
  by (simp add: parallelUpload_def)

lemma parallelUpload_snoc:
  "parallelUpload env n (sched @ [w]) = step env n (parallelUpload env n sched) w"
  by (simp add: parallelUpload_def)

lemma mod_gap:
  assumes "j mod W = k mod W" and "j < k + W"
  shows "j \<le> (k::nat)"
proof (rule ccontr)
  assume "\<not> j \<le> k"
  then have kj: "k \<le> j" and pos: "0 < j - k" by simp_all
  from assms(1) kj have "W dvd j - k" by (simp add: mod_eq_dvd_iff_nat)
  then have "W \<le> j - k" using pos by (rule dvd_imp_le)
  with assms(2) kj show False by arith
qed

lemma wf_worker_wstep: "wf_worker n w wk \<Longrightarrow> wf_worker n w (wstep env n wk)"
  by (cases "phase wk") (auto simp: wf_worker_def wstep_def)

lemma wf_workers_initial: "wf_workers n (workers initial_pool)"
  by (simp add: wf_workers_def wf_worker_def initial_pool_def)

lemma wf_workers_step:
  assumes "wf_workers n (workers s)"
  shows "wf_workers n (workers (step env n s w))"
proof (cases "w < length (workers s)")
  case True
  with assms show ?thesis
    by (auto simp: workers_step wf_workers_def nth_list_update wf_worker_wstep)
next
  case False
  with assms show ?thesis by (simp add: step_out_of_range)
qed

lemma wf_workers_parallelUpload: "wf_workers n (workers (parallelUpload env n sched))"
  by (induction sched rule: rev_induct)
     (simp_all add: parallelUpload_Nil parallelUpload_snoc wf_workers_initial wf_workers_step)

lemma issued_wstep:
  assumes "loop_i wk mod MAXIMUM_CONCURRENT_UPLOADS = j mod MAXIMUM_CONCURRENT_UPLOADS"
  shows "j < issued (wstep env n wk) \<longleftrightarrow>
         j < issued wk \<or> (phase wk = Ready \<and> loop_i wk < n \<and> j = loop_i wk)"
proof (cases "phase wk")
  case Ready
  then show ?thesis by (auto simp: issued_def wstep_def)
next
  case Uploading
  show ?thesis
  proof (cases "chunk_ok env (loop_i wk)")
    case True
    have "j < loop_i wk + MAXIMUM_CONCURRENT_UPLOADS \<longleftrightarrow> j < Suc (loop_i wk)"
      using mod_gap [of j MAXIMUM_CONCURRENT_UPLOADS "loop_i wk"] assms W_pos by auto
    with True Uploading show ?thesis by (simp add: issued_def wstep_def)
  next
    case False
    with Uploading show ?thesis by (simp add: issued_def wstep_def)
  qed
next
  case Finished
  then show ?thesis by (simp add: issued_def wstep_def)
next
  case Rejected
  then show ?thesis by (simp add: issued_def wstep_def)
qed

lemma uploads_step_issue:
  "w < length (workers s) \<Longrightarrow> phase (workers s ! w) = Ready \<Longrightarrow> loop_i (workers s ! w) < n \<Longrightarrow>
   uploads (trace (step env n s w)) = uploads (trace s) @ [(w, loop_i (workers s ! w))]"
  by (simp add: trace_step uploads_append)

lemma uploads_step_other:
  "w < length (workers s) \<Longrightarrow> \<not> (phase (workers s ! w) = Ready \<and> loop_i (workers s ! w) < n) \<Longrightarrow>
   uploads (trace (step env n s w)) = uploads (trace s)"
  by (cases "phase (workers s ! w)") (auto simp: trace_step uploads_append)

lemma uploads_inv_step:
  assumes wf: "wf_workers n (workers s)" and inv: "uploads_inv s"
  shows "uploads_inv (step env n s w)"
proof (cases "w < length (workers s)")
  case False
  with inv show ?thesis by (simp add: step_out_of_range)
next
  case True
  let ?W = MAXIMUM_CONCURRENT_UPLOADS
  let ?wk = "workers s ! w"
  from wf True have len: "length (workers s) = ?W" and w: "w < ?W"
    and k: "loop_i ?wk mod ?W = w"
    by (simp_all add: wf_workers_def wf_worker_def)
  have nth: "workers (step env n s w) ! (j mod ?W) =
      (if j mod ?W = w then wstep env n ?wk else workers s ! (j mod ?W))" for j
    using True W_pos by (simp add: workers_step nth_list_update len)
  have iss: "j < issued (workers (step env n s w) ! (j mod ?W)) \<longleftrightarrow>
      j < issued (workers s ! (j mod ?W)) \<or> (phase ?wk = Ready \<and> loop_i ?wk < n \<and> j = loop_i ?wk)" for j
  proof (cases "j mod ?W = w")
    case True
    with k have "loop_i ?wk mod ?W = j mod ?W" by simp
    from issued_wstep [OF this, of env n] nth [of j] True show ?thesis by simp
  next
    case False
    with nth [of j] k show ?thesis by auto
  qed
  from inv have old: "distinct (map snd (uploads (trace s)))"
    "snd ` set (uploads (trace s)) = {j. j < issued (workers s ! (j mod ?W))}"
    "\<forall>u \<in> set (uploads (trace s)). fst u = snd u mod ?W"
    by (simp_all add: uploads_inv_def)
  show ?thesis
  proof (cases "phase ?wk = Ready \<and> loop_i ?wk < n")
    case issue: True
    then have us: "uploads (trace (step env n s w)) = uploads (trace s) @ [(w, loop_i ?wk)]"
      using True by (simp add: uploads_step_issue)
    have "snd ` set (uploads (trace (step env n s w))) = snd ` set (uploads (trace s)) \<union> {loop_i ?wk}"
      by (simp add: us)
    also have "\<dots> = {j. j < issued (workers s ! (j mod ?W))} \<union> {loop_i ?wk}"
      by (simp only: old(2))
    also have "\<dots> = {j. j < issued (workers (step env n s w) ! (j mod ?W))}"
      using issue by (auto simp: iss)
    finally have set': "snd ` set (uploads (trace (step env n s w))) =
        {j. j < issued (workers (step env n s w) ! (j mod ?W))}" .
    have "loop_i ?wk \<notin> snd ` set (uploads (trace s))"
      using issue k unfolding old(2) by (simp add: issued_def)
    with old(1) have dist: "distinct (map snd (uploads (trace (step env n s w))))"
      by (simp add: us)
    have "\<forall>u \<in> set (uploads (trace (step env n s w))). fst u = snd u mod ?W"
      using old(3) k by (simp add: us)
    with set' dist show ?thesis by (simp add: uploads_inv_def)
  next
    case other: False
    then have us: "uploads (trace (step env n s w)) = uploads (trace s)"
      using True by (simp add: uploads_step_other)
    have "{j. j < issued (workers s ! (j mod ?W))} = {j. j < issued (workers (step env n s w) ! (j mod ?W))}"
      using other by (auto simp: iss)
    with old show ?thesis by (simp add: uploads_inv_def us)
  qed
qed

lemma loop_i_wstep:
  assumes "loop_i wk mod MAXIMUM_CONCURRENT_UPLOADS = j mod MAXIMUM_CONCURRENT_UPLOADS"
  shows "j < loop_i (wstep env n wk) \<longleftrightarrow>
         j < loop_i wk \<or> (phase wk = Uploading \<and> chunk_ok env (loop_i wk) \<and> j = loop_i wk)"
proof (cases "phase wk = Uploading \<and> chunk_ok env (loop_i wk)")
  case True
  have "j < loop_i wk + MAXIMUM_CONCURRENT_UPLOADS \<longleftrightarrow> j < Suc (loop_i wk)"
    using mod_gap [of j MAXIMUM_CONCURRENT_UPLOADS "loop_i wk"] assms W_pos by auto
  with True show ?thesis by (auto simp: wstep_def)
next
  case False
  then show ?thesis by (cases "phase wk") (auto simp: wstep_def)
qed

lemma uploaded_step_ok:
  "w < length (workers s) \<Longrightarrow> phase (workers s ! w) = Uploading \<Longrightarrow>
   chunk_ok env (loop_i (workers s ! w)) \<Longrightarrow>
   uploaded (trace (step env n s w)) = uploaded (trace s) @ [loop_i (workers s ! w)]"
  by (simp add: trace_step uploaded_append)

lemma uploaded_step_other:
  "w < length (workers s) \<Longrightarrow>
   \<not> (phase (workers s ! w) = Uploading \<and> chunk_ok env (loop_i (workers s ! w))) \<Longrightarrow>
   uploaded (trace (step env n s w)) = uploaded (trace s)"
  by (cases "phase (workers s ! w)") (auto simp: trace_step uploaded_append)

lemma uploaded_inv_step:
  assumes wf: "wf_workers n (workers s)" and inv: "uploaded_inv env s"
  shows "uploaded_inv env (step env n s w)"
proof (cases "w < length (workers s)")
  case False
  with inv show ?thesis by (simp add: step_out_of_range)
next
  case True
  let ?W = MAXIMUM_CONCURRENT_UPLOADS
  let ?wk = "workers s ! w"
  from wf True have len: "length (workers s) = ?W" and w: "w < ?W"
    and k: "loop_i ?wk mod ?W = w"
    by (simp_all add: wf_workers_def wf_worker_def)
  have nth: "workers (step env n s w) ! (j mod ?W) =
      (if j mod ?W = w then wstep env n ?wk else workers s ! (j mod ?W))" for j
    using True W_pos by (simp add: workers_step nth_list_update len)
  have li: "j < loop_i (workers (step env n s w) ! (j mod ?W)) \<longleftrightarrow>
      j < loop_i (workers s ! (j mod ?W))
      \<or> (phase ?wk = Uploading \<and> chunk_ok env (loop_i ?wk) \<and> j = loop_i ?wk)" for j
  proof (cases "j mod ?W = w")
    case True
    with k have "loop_i ?wk mod ?W = j mod ?W" by simp
    from loop_i_wstep [OF this, of env n] nth [of j] True show ?thesis by simp
  next
    case False
    with nth [of j] k show ?thesis by auto
  qed
  from inv have old: "distinct (uploaded (trace s))"
    "set (uploaded (trace s)) = {j. j < loop_i (workers s ! (j mod ?W))}"
    "\<forall>j \<in> set (uploaded (trace s)). chunk_ok env j"
    by (simp_all add: uploaded_inv_def)
  show ?thesis
  proof (cases "phase ?wk = Uploading \<and> chunk_ok env (loop_i ?wk)")
    case ok: True
    then have us: "uploaded (trace (step env n s w)) = uploaded (trace s) @ [loop_i ?wk]"
      using True by (simp add: uploaded_step_ok)
    have "set (uploaded (trace (step env n s w))) = set (uploaded (trace s)) \<union> {loop_i ?wk}"
      by (simp add: us)
    also have "\<dots> = {j. j < loop_i (workers s ! (j mod ?W))} \<union> {loop_i ?wk}"
      by (simp only: old(2))
    also have "\<dots> = {j. j < loop_i (workers (step env n s w) ! (j mod ?W))}"
      using ok by (auto simp: li)
    finally have set': "set (uploaded (trace (step env n s w))) =
        {j. j < loop_i (workers (step env n s w) ! (j mod ?W))}" .
    have "loop_i ?wk \<notin> set (uploaded (trace s))"
      using k unfolding old(2) by simp
    with old(1) have dist: "distinct (uploaded (trace (step env n s w)))"
      by (simp add: us)
    have "\<forall>j \<in> set (uploaded (trace (step env n s w))). chunk_ok env j"
      using old(3) ok by (simp add: us)
    with set' dist show ?thesis by (simp add: uploaded_inv_def)
  next
    case other: False
    then have us: "uploaded (trace (step env n s w)) = uploaded (trace s)"
      using True by (simp add: uploaded_step_other)
    have "{j. j < loop_i (workers s ! (j mod ?W))} = {j. j < loop_i (workers (step env n s w) ! (j mod ?W))}"
      using other by (auto simp: li)
    with old show ?thesis by (simp add: uploaded_inv_def us)
  qed
qed

lemma progress_inv_step:
  assumes inv: "progress_inv env n s"
  shows "progress_inv env n (step env n s w)"
proof (cases "w < length (workers s)")
  case False
  with inv show ?thesis by (simp add: step_out_of_range)
next
  case True
  from inv have old: "completedChunks s = length (uploaded (trace s))"
    "progress (trace s) = (if onProgress env then map (percentage n) [1..<Suc (completedChunks s)] else [])"
    by (simp_all add: progress_inv_def)
  show ?thesis
  proof (cases "phase (workers s ! w) = Uploading \<and> chunk_ok env (loop_i (workers s ! w))")
    case ok: True
    with True old show ?thesis
      by (simp add: progress_inv_def trace_step completedChunks_step uploaded_append progress_append)
  next
    case other: False
    with True have "uploaded (trace (step env n s w)) = uploaded (trace s)"
      by (simp add: uploaded_step_other)
    moreover from True other have "progress (trace (step env n s w)) = progress (trace s)"
      by (cases "phase (workers s ! w)") (auto simp: trace_step progress_append)
    moreover from True other have "completedChunks (step env n s w) = completedChunks s"
      by (auto simp: completedChunks_step)
    ultimately show ?thesis using old by (simp add: progress_inv_def)
  qed
qed

lemma all_finished_nth: "all_finished ws \<longleftrightarrow> (\<forall>w < length ws. phase (ws ! w) = Finished)"
  by (simp add: all_finished_def list_all_length)

lemma all_finished_update:
  "w < length ws \<Longrightarrow>
   all_finished (ws[w := wk]) \<longleftrightarrow>
     phase wk = Finished \<and> (\<forall>v < length ws. v \<noteq> w \<longrightarrow> phase (ws ! v) = Finished)"
  by (auto simp: all_finished_nth nth_list_update)

lemma rejected_update:
  "w < length ws \<Longrightarrow>
   (\<exists>v < length (ws[w := wk]). phase (ws[w := wk] ! v) = Rejected) \<longleftrightarrow>
     phase wk = Rejected \<or> (\<exists>v < length ws. v \<noteq> w \<and> phase (ws ! v) = Rejected)"
  by (auto simp: nth_list_update)

lemma settled_inv_step:
  assumes wf: "wf_workers n (workers s)" and inv: "settled_inv env n s"
  shows "settled_inv env n (step env n s w)"
proof (cases "w < length (workers s)")
  case False
  with inv show ?thesis by (simp add: step_out_of_range)
next
  case True
  let ?wk = "workers s ! w"
  from wf True have k: "phase ?wk = Uploading \<longrightarrow> loop_i ?wk < n"
    by (simp add: wf_workers_def wf_worker_def)
  from inv have fin: "settled s = Some (Inr ()) \<longleftrightarrow> all_finished (workers s)"
    and rej: "(\<exists>e. settled s = Some (Inl e)) \<longleftrightarrow> (\<exists>v < length (workers s). phase (workers s ! v) = Rejected)"
    and err: "\<forall>e. settled s = Some (Inl e) \<longrightarrow> (\<exists>j < n. e = ChunkUploadFailed j \<and> \<not> chunk_ok env j)"
    by (simp_all add: settled_inv_def)
  have fin': "all_finished (workers s) \<longleftrightarrow>
      phase ?wk = Finished \<and> (\<forall>v < length (workers s). v \<noteq> w \<longrightarrow> phase (workers s ! v) = Finished)"
    using True by (auto simp: all_finished_nth)
  have rej': "(\<exists>v < length (workers s). phase (workers s ! v) = Rejected) \<longleftrightarrow>
      phase ?wk = Rejected \<or> (\<exists>v < length (workers s). v \<noteq> w \<and> phase (workers s ! v) = Rejected)"
    using True by auto
  show ?thesis
  proof (cases "phase ?wk")
    case Ready
    show ?thesis
    proof (cases "loop_i ?wk < n")
      case lt: True
      with Ready True fin rej err fin' rej' show ?thesis
        by (simp add: settled_inv_def settled_step workers_step wstep_def all_finished_update rejected_update
            del: length_list_update)
    next
      case ge: False
      show ?thesis
      proof (cases "settled s")
        case None
        with Ready ge True fin rej err fin' rej' show ?thesis
          by (simp add: settled_inv_def settled_step workers_step wstep_def all_finished_update rejected_update
            del: length_list_update)
      next
        case (Some r)
        show ?thesis
        proof (cases r)
          case (Inl e)
          with Some rej rej' Ready obtain v where "v < length (workers s)" "v \<noteq> w" "phase (workers s ! v) = Rejected"
            by auto
          then have nf: "\<not> (\<forall>v < length (workers s). v \<noteq> w \<longrightarrow> phase (workers s ! v) = Finished)"
            by auto
          with Inl Some Ready ge True fin rej err fin' rej' show ?thesis
            by (simp add: settled_inv_def settled_step workers_step wstep_def all_finished_update rejected_update
              del: length_list_update)
        next
          case (Inr u)
          with Some fin fin' Ready show ?thesis by simp
        qed
      qed
    qed
  next
    case Uploading
    show ?thesis
    proof (cases "chunk_ok env (loop_i ?wk)")
      case ok: True
      with Uploading True fin rej err fin' rej' show ?thesis
        by (simp add: settled_inv_def settled_step workers_step wstep_def all_finished_update rejected_update
            del: length_list_update)
    next
      case bad: False
      from Uploading fin fin' have ns: "settled s \<noteq> Some (Inr ())" by simp
      show ?thesis
      proof (cases "settled s")
        case None
        with bad Uploading True fin rej err fin' rej' k show ?thesis
          by (simp add: settled_inv_def settled_step workers_step wstep_def all_finished_update rejected_update
            del: length_list_update)
      next
        case (Some r)
        with ns obtain e where e: "r = Inl e" by (cases r) auto
        with Some bad Uploading True fin rej err fin' rej' k show ?thesis
          by (simp add: settled_inv_def settled_step workers_step wstep_def all_finished_update rejected_update
            del: length_list_update)
      qed
    qed
  next
    case Finished
    with True inv show ?thesis by (simp add: step_def Let_def)
  next
    case Rejected
    with True inv show ?thesis by (simp add: step_def Let_def)
  qed
qed

lemma initial_nth:
  "w < MAXIMUM_CONCURRENT_UPLOADS \<Longrightarrow> workers initial_pool ! w = \<lparr>loop_i = w, phase = Ready\<rparr>"
  by (simp add: initial_pool_def)

lemma trace_initial: "trace initial_pool = []" "completedChunks initial_pool = 0" "settled initial_pool = None"
  "length (workers initial_pool) = MAXIMUM_CONCURRENT_UPLOADS"
  by (simp_all add: initial_pool_def)

lemma not_less_mod: "\<not> j < j mod (W::nat)"
  using mod_less_eq_dividend [of j W] by (simp only: not_less)

lemma uploads_inv_initial: "uploads_inv initial_pool"
  using W_pos by (simp add: uploads_inv_def trace_initial initial_nth issued_def not_less_mod)

lemma uploaded_inv_initial: "uploaded_inv env initial_pool"
  using W_pos by (simp add: uploaded_inv_def trace_initial initial_nth not_less_mod)

lemma progress_inv_initial: "progress_inv env n initial_pool"
  by (simp add: progress_inv_def trace_initial)

lemma settled_inv_initial: "settled_inv env n initial_pool"
  using W_pos
  by (auto simp: settled_inv_def trace_initial all_finished_nth initial_nth intro: exI [of _ 0])

lemma parallelUpload_invariants:
  "wf_workers n (workers (parallelUpload env n sched))
   \<and> uploads_inv (parallelUpload env n sched)
   \<and> uploaded_inv env (parallelUpload env n sched)
   \<and> progress_inv env n (parallelUpload env n sched)
   \<and> settled_inv env n (parallelUpload env n sched)"
proof (induction sched rule: rev_induct)
  case Nil
  show ?case
    by (simp add: parallelUpload_Nil wf_workers_initial uploads_inv_initial uploaded_inv_initial
        progress_inv_initial settled_inv_initial)
next
  case (snoc w sched)
  then show ?case
    by (simp add: parallelUpload_snoc wf_workers_step uploads_inv_step uploaded_inv_step
        progress_inv_step settled_inv_step)
qed

lemma mod_below:
  assumes "j mod W = L mod W" and "j < L"
  shows "j + W \<le> (L::nat)"
proof (rule ccontr)
  assume "\<not> j + W \<le> L"
  then have "L < j + W" by simp
  with assms(1) have "L \<le> j" using mod_gap [of L W j] by simp
  with assms(2) show False by simp
qed

text \<open>The chunks below a well-formed worker's loop variable are chunks of the file.\<close>

lemma below_loop_i:
  assumes "wf_workers n ws" and "j < loop_i (ws ! (j mod MAXIMUM_CONCURRENT_UPLOADS))"
  shows "j < n"
proof -
  let ?W = MAXIMUM_CONCURRENT_UPLOADS
  let ?wk = "ws ! (j mod ?W)"
  have w: "j mod ?W < ?W" using W_pos by simp
  with assms(1) have m: "loop_i ?wk mod ?W = j mod ?W" and b: "loop_i ?wk < n + ?W"
    by (simp_all add: wf_workers_def wf_worker_def)
  from mod_below [of j ?W "loop_i ?wk"] m assms(2) have "j + ?W \<le> loop_i ?wk" by simp
  with b show ?thesis by simp
qed

lemma below_issued:
  assumes "wf_workers n ws" and "j < issued (ws ! (j mod MAXIMUM_CONCURRENT_UPLOADS))"
  shows "j < n"
proof (cases "j < loop_i (ws ! (j mod MAXIMUM_CONCURRENT_UPLOADS))")
  case True
  with assms(1) show ?thesis by (rule below_loop_i)
next
  case False
  let ?wk = "ws ! (j mod MAXIMUM_CONCURRENT_UPLOADS)"
  have w: "j mod MAXIMUM_CONCURRENT_UPLOADS < MAXIMUM_CONCURRENT_UPLOADS" using W_pos by simp
  from False assms(2) have "j = loop_i ?wk" and "phase ?wk = Uploading \<or> phase ?wk = Rejected"
    by (auto simp: issued_def split: if_splits)
  with assms(1) w show ?thesis by (auto simp: wf_workers_def wf_worker_def)
qed

lemma finished_loop_i:
  assumes "wf_workers n ws" and "all_finished ws" and "j < n"
  shows "j < loop_i (ws ! (j mod MAXIMUM_CONCURRENT_UPLOADS))"
    and "j < issued (ws ! (j mod MAXIMUM_CONCURRENT_UPLOADS))"
proof -
  let ?wk = "ws ! (j mod MAXIMUM_CONCURRENT_UPLOADS)"
  have w: "j mod MAXIMUM_CONCURRENT_UPLOADS < MAXIMUM_CONCURRENT_UPLOADS" using W_pos by simp
  with assms(1,2) have "phase ?wk = Finished" and "phase ?wk = Finished \<longrightarrow> n \<le> loop_i ?wk"
    by (simp_all add: wf_workers_def wf_worker_def all_finished_nth)
  with assms(3) show "j < loop_i ?wk" and "j < issued ?wk" by (simp_all add: issued_def)
qed

subsection \<open>A schedule that completes\<close>

lemma foldl_step_length:
  "length (workers (foldl (step env n) s ws)) = length (workers s)"
proof (induction ws arbitrary: s)
  case Nil
  show ?case by simp
next
  case (Cons w ws)
  have "length (workers (step env n s w)) = length (workers s)"
    by (cases "w < length (workers s)") (simp_all add: workers_step step_out_of_range)
  with Cons show ?case by simp
qed

lemma round_prefix:
  "m \<le> length (workers s) \<Longrightarrow>
   workers (foldl (step env n) s [0..<m]) =
     map (wstep env n) (take m (workers s)) @ drop m (workers s)"
proof (induction m)
  case 0
  show ?case by simp
next
  case (Suc m)
  let ?s = "foldl (step env n) s [0..<m]"
  from Suc have ih: "workers ?s = map (wstep env n) (take m (workers s)) @ drop m (workers s)"
    and m: "m < length (workers s)" by simp_all
  have len: "length (workers ?s) = length (workers s)" by (rule foldl_step_length)
  have at: "workers ?s ! m = workers s ! m"
    using m by (simp add: ih nth_append)
  have "workers (foldl (step env n) s [0..<Suc m]) = (workers ?s)[m := wstep env n (workers s ! m)]"
    using m len by (simp add: workers_step at)
  also have "\<dots> = map (wstep env n) (take m (workers s)) @ (drop m (workers s))[0 := wstep env n (workers s ! m)]"
    using m by (simp add: ih list_update_append)
  also have "drop m (workers s) = workers s ! m # drop (Suc m) (workers s)"
    using m by (simp add: Cons_nth_drop_Suc)
  finally show ?case using m by (simp add: take_Suc_conv_app_nth)
qed

lemma round_workers:
  "length (workers s) = MAXIMUM_CONCURRENT_UPLOADS \<Longrightarrow>
   workers (foldl (step env n) s [0..<MAXIMUM_CONCURRENT_UPLOADS]) = map (wstep env n) (workers s)"
  using round_prefix [of MAXIMUM_CONCURRENT_UPLOADS s env n] by simp

lemma round_robin_Suc: "round_robin (Suc k) = round_robin k @ [0..<MAXIMUM_CONCURRENT_UPLOADS]"
proof -
  have "replicate (Suc k) xs = replicate k xs @ [xs]" for xs :: "nat list"
    by (simp add: replicate_append_same)
  then have "concat (replicate (Suc k) xs) = concat (replicate k xs) @ xs" for xs :: "nat list"
    by (simp only: concat_append) simp
  then show ?thesis unfolding round_robin_def .
qed

lemma round_robin_workers:
  "workers (parallelUpload env n (round_robin k)) = map ((wstep env n) ^^ k) (workers initial_pool)"
proof (induction k)
  case 0
  show ?case by (simp add: round_robin_def parallelUpload_def)
next
  case (Suc k)
  have len: "length (workers (parallelUpload env n (round_robin k))) = MAXIMUM_CONCURRENT_UPLOADS"
    by (simp add: parallelUpload_def foldl_step_length trace_initial)
  have "workers (parallelUpload env n (round_robin (Suc k))) =
      workers (foldl (step env n) (parallelUpload env n (round_robin k)) [0..<MAXIMUM_CONCURRENT_UPLOADS])"
    by (simp add: round_robin_Suc parallelUpload_def)
  also have "\<dots> = map (wstep env n) (workers (parallelUpload env n (round_robin k)))"
    using len by (rule round_workers)
  finally show ?case by (simp add: Suc)
qed

lemma turns_wstep:
  assumes "\<forall>i < n. chunk_ok env i" and "wf_worker n w wk" and "phase wk \<noteq> Rejected"
  shows "phase (wstep env n wk) \<noteq> Rejected"
    and "phase wk \<noteq> Finished \<Longrightarrow> turns n (wstep env n wk) < turns n wk"
    and "phase wk = Finished \<Longrightarrow> wstep env n wk = wk"
  using assms W_pos by (cases "phase wk"; auto simp: wstep_def turns_def wf_worker_def)+

lemma turns_finish:
  assumes ok: "\<forall>i < n. chunk_ok env i"
  shows "wf_worker n w wk \<Longrightarrow> phase wk \<noteq> Rejected \<Longrightarrow> turns n wk \<le> k \<Longrightarrow>
         phase (((wstep env n) ^^ k) wk) = Finished"
proof (induction k arbitrary: wk)
  case 0
  then show ?case by (cases "phase wk") (simp_all add: turns_def)
next
  case (Suc k)
  have wf': "wf_worker n w (wstep env n wk)" using Suc.prems(1) by (rule wf_worker_wstep)
  have nr: "phase (wstep env n wk) \<noteq> Rejected" using turns_wstep(1) [OF ok Suc.prems(1,2)] .
  have "turns n (wstep env n wk) \<le> k"
  proof (cases "phase wk = Finished")
    case True
    then show ?thesis using turns_wstep(3) [OF ok Suc.prems(1,2)] by (simp add: turns_def)
  next
    case False
    with turns_wstep(2) [OF ok Suc.prems(1,2)] Suc.prems(3) show ?thesis by simp
  qed
  from Suc.IH [OF wf' nr this] show ?case by (simp add: funpow_swap1)
qed

lemma round_robin_completes:
  assumes ok: "\<forall>i < n. chunk_ok env i"
  shows "settled (parallelUpload env n (round_robin (2 * n + 22))) = Some (Inr ())"
proof -
  let ?s = "parallelUpload env n (round_robin (2 * n + 22))"
  have "phase (workers ?s ! w) = Finished" if w: "w < MAXIMUM_CONCURRENT_UPLOADS" for w
  proof -
    have wf: "wf_worker n w (workers initial_pool ! w)"
      using wf_workers_initial [of n] w by (simp add: wf_workers_def)
    have "turns n (workers initial_pool ! w) \<le> 2 * n + 22"
      using w by (simp add: initial_nth turns_def MAXIMUM_CONCURRENT_UPLOADS_def)
    from turns_finish [OF ok wf _ this] w show ?thesis
      by (simp add: round_robin_workers trace_initial initial_nth)
  qed
  moreover have "length (workers ?s) = MAXIMUM_CONCURRENT_UPLOADS"
    by (simp add: round_robin_workers trace_initial)
  ultimately have "all_finished (workers ?s)" by (simp add: all_finished_nth)
  with parallelUpload_invariants [of n env "round_robin (2 * n + 22)"] show ?thesis
    by (simp add: settled_inv_def)
qed

lemma count_list_distinct: "distinct xs \<Longrightarrow> count_list xs x = (if x \<in> set xs then 1 else 0)"
  by (induction xs) auto

lemma parallelUpload_resolved:
  assumes "settled (parallelUpload env n schedule) = Some (Inr ())"
  shows "snd ` set (uploads (trace (parallelUpload env n schedule))) = {0..<n}"
    and "set (uploaded (trace (parallelUpload env n schedule))) = {0..<n}"
    and "completedChunks (parallelUpload env n schedule) = n"
proof -
  let ?s = "parallelUpload env n schedule"
  from parallelUpload_invariants [of n env schedule]
  have wf: "wf_workers n (workers ?s)" and u: "uploads_inv ?s" and d: "uploaded_inv env ?s"
    and p: "progress_inv env n ?s" and st: "settled_inv env n ?s" by simp_all
  from st assms have fin: "all_finished (workers ?s)" by (simp add: settled_inv_def)
  show "snd ` set (uploads (trace ?s)) = {0..<n}"
    using u below_issued [OF wf] finished_loop_i(2) [OF wf fin]
    by (auto simp: uploads_inv_def)
  show up: "set (uploaded (trace ?s)) = {0..<n}"
    using d below_loop_i [OF wf] finished_loop_i(1) [OF wf fin]
    by (auto simp: uploaded_inv_def)
  from d have "distinct (uploaded (trace ?s))" by (simp add: uploaded_inv_def)
  then have "length (uploaded (trace ?s)) = card (set (uploaded (trace ?s)))"
    by (simp add: distinct_card)
  with up p show "completedChunks ?s = n" by (simp add: progress_inv_def)
qed

text \<open>
  C3. With ten workers, when every chunk upload succeeds the round-robin schedule of
  \<open>2 * n + 22\<close> rounds completes the upload of \<open>n\<close> chunks. Whenever \<open>parallelUpload\<close> is
  fulfilled, under any schedule, the calls of \<open>uploadChunk\<close> are exactly the pairs of worker
  \<open>i mod 10\<close> and chunk \<open>i\<close> for \<open>i\<close> below \<open>n\<close>, each made once: worker \<open>w\<close> uploads \<open>w\<close>,
  \<open>w + 10\<close>, \<open>w + 20\<close>, ... below \<open>n\<close>, and every chunk is uploaded exactly once.
\<close>

theorem parallelUpload_partition:
  "((\<forall>i < n. chunk_ok env i) \<longrightarrow>
      settled (parallelUpload env n (round_robin (2 * n + 22))) = Some (Inr ()))
   \<and> (\<forall>schedule. settled (parallelUpload env n schedule) = Some (Inr ()) \<longrightarrow>
        distinct (uploads (trace (parallelUpload env n schedule)))
        \<and> set (uploads (trace (parallelUpload env n schedule))) = (\<lambda>i. (i mod 10, i)) ` {0..<n}
        \<and> (\<forall>w. {i. (w, i) \<in> set (uploads (trace (parallelUpload env n schedule)))} = set (stride w n))
        \<and> (\<forall>i < n. count_list (map snd (uploads (trace (parallelUpload env n schedule)))) i = 1))"
proof (intro conjI allI impI)
  assume "\<forall>i < n. chunk_ok env i"
  then show "settled (parallelUpload env n (round_robin (2 * n + 22))) = Some (Inr ())"
    by (rule round_robin_completes)
next
  fix schedule
  assume res: "settled (parallelUpload env n schedule) = Some (Inr ())"
  let ?us = "uploads (trace (parallelUpload env n schedule))"
  from parallelUpload_invariants [of n env schedule]
  have dm: "distinct (map snd ?us)" and by_mod: "\<forall>u \<in> set ?us. fst u = snd u mod 10"
    by (simp_all add: uploads_inv_def MAXIMUM_CONCURRENT_UPLOADS_def)
  have img: "snd ` set ?us = {0..<n}" using res by (rule parallelUpload_resolved(1))
  show d: "distinct ?us" using dm by (simp add: distinct_map)
  show s: "set ?us = (\<lambda>i. (i mod 10, i)) ` {0..<n}"
  proof (rule set_eqI)
    fix u
    show "u \<in> set ?us \<longleftrightarrow> u \<in> (\<lambda>i. (i mod 10, i)) ` {0..<n}"
    proof
      assume m: "u \<in> set ?us"
      then have "snd u \<in> snd ` set ?us" by (rule imageI)
      with img have "snd u \<in> {0..<n}" by simp
      moreover from by_mod m have "fst u = snd u mod 10" by (rule bspec)
      then have "u = (snd u mod 10, snd u)" by (cases u) simp
      ultimately show "u \<in> (\<lambda>i. (i mod 10, i)) ` {0..<n}" by (rule rev_image_eqI)
    next
      assume "u \<in> (\<lambda>i. (i mod 10, i)) ` {0..<n}"
      then obtain i where i: "i \<in> {0..<n}" and u: "u = (i mod 10, i)" by auto
      from i img obtain v where v: "v \<in> set ?us" and sv: "snd v = i" by (metis imageE)
      from by_mod v have fv: "fst v = snd v mod 10" by (rule bspec)
      from sv fv have "v = u" by (simp add: u prod_eq_iff)
      with v show "u \<in> set ?us" by simp
    qed
  qed
  show "{i. (w, i) \<in> set ?us} = set (stride w n)" for w
    by (auto simp: s stride_def MAXIMUM_CONCURRENT_UPLOADS_def)
  show "count_list (map snd ?us) i = 1" if "i < n" for i
    using that img by (simp add: count_list_distinct [OF dm])
qed

theorem parallelUpload_partition_witness:
  "settled (parallelUpload (example_env\<lparr>onProgress := False\<rparr>) 23 (round_robin 68)) = Some (Inr ())
   \<and> settled (parallelUpload (example_env\<lparr>onProgress := False\<rparr>) 23 (round_robin 7)) = Some (Inr ())
   \<and> uploads (trace (parallelUpload (example_env\<lparr>onProgress := False\<rparr>) 23 (round_robin 7))) =
       [(0, 0), (1, 1), (2, 2), (3, 3), (4, 4), (5, 5), (6, 6), (7, 7), (8, 8), (9, 9),
        (0, 10), (1, 11), (2, 12), (3, 13), (4, 14), (5, 15), (6, 16), (7, 17), (8, 18), (9, 19),
        (0, 20), (1, 21), (2, 22)]
   \<and> set (uploads (trace (parallelUpload (example_env\<lparr>onProgress := False\<rparr>) 23 (round_robin 7)))) =
       (\<lambda>i. (i mod 10, i)) ` {0..<23}
   \<and> {i. (2, i) \<in> set (uploads (trace (parallelUpload (example_env\<lparr>onProgress := False\<rparr>) 23 (round_robin 7))))} =
       {2, 12, 22}"
proof -
  let ?E = "example_env\<lparr>onProgress := False\<rparr>"
  have ok: "\<forall>i < 23. chunk_ok ?E i" by (simp add: example_env_def)
  have fin7: "settled (parallelUpload ?E 23 (round_robin 7)) = Some (Inr ())" by code_simp
  have us: "uploads (trace (parallelUpload ?E 23 (round_robin 7))) =
       [(0, 0), (1, 1), (2, 2), (3, 3), (4, 4), (5, 5), (6, 6), (7, 7), (8, 8), (9, 9),
        (0, 10), (1, 11), (2, 12), (3, 13), (4, 14), (5, 15), (6, 16), (7, 17), (8, 18), (9, 19),
        (0, 20), (1, 21), (2, 22)]" by code_simp
  have st: "set (stride 2 23) = {2, 12, 22}" by code_simp
  from parallelUpload_partition [of 23 ?E] ok
  have a: "settled (parallelUpload ?E 23 (round_robin 68)) = Some (Inr ())" by simp
  from parallelUpload_partition [of 23 ?E] fin7
  have b: "set (uploads (trace (parallelUpload ?E 23 (round_robin 7)))) = (\<lambda>i. (i mod 10, i)) ` {0..<23}"
    and c: "{i. (2, i) \<in> set (uploads (trace (parallelUpload ?E 23 (round_robin 7))))} = set (stride 2 23)"
    by blast+
  note c' = c [unfolded st]
  show ?thesis by (intro conjI) (rule a fin7 us b c')+
qed

lemma progress_list:
  "progress (trace (parallelUpload env n schedule)) =
     (if onProgress env
      then map (percentage n) [1..<Suc (completedChunks (parallelUpload env n schedule))] else [])"
  using parallelUpload_invariants [of n env schedule] by (simp add: progress_inv_def)

lemma completedChunks_le: "completedChunks (parallelUpload env n schedule) \<le> n"
proof -
  let ?s = "parallelUpload env n schedule"
  from parallelUpload_invariants [of n env schedule]
  have wf: "wf_workers n (workers ?s)" and d: "uploaded_inv env ?s" and p: "progress_inv env n ?s"
    by simp_all
  have "set (uploaded (trace ?s)) \<subseteq> {0..<n}"
    using d below_loop_i [OF wf] by (auto simp: uploaded_inv_def)
  then have "card (set (uploaded (trace ?s))) \<le> card {0..<n}" by (intro card_mono) simp_all
  moreover have "distinct (uploaded (trace ?s))" using d by (simp add: uploaded_inv_def)
  ultimately have "length (uploaded (trace ?s)) \<le> n" by (simp add: distinct_card)
  with p show ?thesis by (simp add: progress_inv_def)
qed

text \<open>
  C9, as the code has it. In every state that \<open>parallelUpload\<close> reaches, under any
  schedule, the counter is the number of chunks uploaded so far and no chunk is counted
  twice. The callback, when there is one, has been called once per increment, the \<open>k\<close>-th
  time with \<open>Math.round((k / n) * 100)\<close> as the doubles give it: for at most \<open>2 ^ 44\<close>
  chunks that is an integer within one half of \<open>100 * k / n\<close>, so the nearest integer
  unless \<open>100 * k / n\<close> lies halfway between two. With no chunk the counter stays 0 and the
  callback is never called: the branch of the expression that gives 100 for \<open>n = 0\<close> is not
  reached. When \<open>parallelUpload\<close> is fulfilled, every chunk is uploaded, the counter is the
  number of chunks and the last call of the callback reports 100.
\<close>

theorem parallelUpload_progress:
  "let s = parallelUpload env n schedule in
     completedChunks s = length (uploaded (trace s))
     \<and> distinct (uploaded (trace s))
     \<and> (\<forall>i \<in> set (uploaded (trace s)). i < n \<and> chunk_ok env i)
     \<and> (onProgress env \<longrightarrow> progress (trace s) = map (percentage n) [1..<Suc (completedChunks s)])
     \<and> (onProgress env \<and> n \<le> 2 ^ 44 \<longrightarrow>
          (\<forall>j < length (progress (trace s)).
             \<bar>rat_of_int (progress (trace s) ! j) - 100 * of_nat (Suc j) / of_nat n\<bar> \<le> 1 / 2))
     \<and> (\<not> onProgress env \<longrightarrow> progress (trace s) = [])
     \<and> (n = 0 \<longrightarrow> completedChunks s = 0 \<and> progress (trace s) = [])
     \<and> (settled s = Some (Inr ()) \<longrightarrow>
          set (uploaded (trace s)) = {0..<n} \<and> completedChunks s = n
          \<and> (onProgress env \<and> 0 < n \<longrightarrow> last (progress (trace s)) = 100))"
proof -
  let ?s = "parallelUpload env n schedule"
  from parallelUpload_invariants [of n env schedule]
  have wf: "wf_workers n (workers ?s)" and d: "uploaded_inv env ?s" and p: "progress_inv env n ?s"
    by simp_all
  have c: "completedChunks ?s = length (uploaded (trace ?s))"
    using p by (simp add: progress_inv_def)
  note pr = progress_list [of env n schedule]
  note le = completedChunks_le [of env n schedule]
  have dist: "distinct (uploaded (trace ?s))" using d by (simp add: uploaded_inv_def)
  have mem: "\<forall>i \<in> set (uploaded (trace ?s)). i < n \<and> chunk_ok env i"
    using d below_loop_i [OF wf] by (auto simp: uploaded_inv_def)
  have near: "onProgress env \<and> n \<le> 2 ^ 44 \<longrightarrow>
      (\<forall>j < length (progress (trace ?s)).
         \<bar>rat_of_int (progress (trace ?s) ! j) - 100 * of_nat (Suc j) / of_nat n\<bar> \<le> 1 / 2)"
  proof (intro impI allI)
    fix j
    assume a: "onProgress env \<and> n \<le> 2 ^ 44" and j: "j < length (progress (trace ?s))"
    from a j have jc: "j < completedChunks ?s" by (simp add: pr del: upt_Suc)
    with le have jn: "Suc j \<le> n" by simp
    from a jc have "progress (trace ?s) ! j = percentage n (Suc j)" by (simp add: pr del: upt_Suc)
    moreover have "\<bar>rat_of_int (percentage n (Suc j)) - 100 * of_nat (Suc j) / of_nat n\<bar> \<le> 1 / 2"
      using a jn by (intro percentage_nearest) simp_all
    ultimately show "\<bar>rat_of_int (progress (trace ?s) ! j) - 100 * of_nat (Suc j) / of_nat n\<bar> \<le> 1 / 2"
      by simp
  qed
  have zero: "n = 0 \<longrightarrow> completedChunks ?s = 0 \<and> progress (trace ?s) = []"
  proof
    assume "n = 0"
    with le have "completedChunks ?s = 0" by simp
    then show "completedChunks ?s = 0 \<and> progress (trace ?s) = []" by (simp add: pr)
  qed
  have fin: "set (uploaded (trace ?s)) = {0..<n} \<and> completedChunks ?s = n
      \<and> (onProgress env \<and> 0 < n \<longrightarrow> last (progress (trace ?s)) = 100)"
    if res: "settled ?s = Some (Inr ())"
  proof -
    have n: "completedChunks ?s = n" using res by (rule parallelUpload_resolved(3))
    have "last (progress (trace ?s)) = 100" if "onProgress env" "0 < n"
    proof -
      from that(2) have "[1..<Suc n] = [1..<n] @ [n]" by (cases n) simp_all
      with that show ?thesis by (simp add: pr n percentage_all)
    qed
    with n parallelUpload_resolved(2) [OF res] show ?thesis by simp
  qed
  have pr1: "onProgress env \<longrightarrow> progress (trace ?s) = map (percentage n) [1..<Suc (completedChunks ?s)]"
    and pr2: "\<not> onProgress env \<longrightarrow> progress (trace ?s) = []"
    using pr by simp_all
  from fin have fin': "settled ?s = Some (Inr ()) \<longrightarrow>
      set (uploaded (trace ?s)) = {0..<n} \<and> completedChunks ?s = n
      \<and> (onProgress env \<and> 0 < n \<longrightarrow> last (progress (trace ?s)) = 100)" by (rule impI)
  show ?thesis unfolding Let_def by (intro conjI) (rule c dist mem pr1 near pr2 zero fin')+
qed

theorem parallelUpload_progress_witness:
  "settled (parallelUpload example_env 8 (round_robin 38)) = Some (Inr ())
   \<and> completedChunks (parallelUpload example_env 8 (round_robin 38)) = 8
   \<and> progress (trace (parallelUpload example_env 8 (round_robin 38))) = [13, 25, 38, 50, 63, 75, 88, 100]
   \<and> \<bar>rat_of_int (progress (trace (parallelUpload example_env 8 (round_robin 38))) ! 0) - 100 * of_nat (Suc 0) / of_nat 8\<bar> \<le> 1 / 2
   \<and> last (progress (trace (parallelUpload example_env 8 (round_robin 38)))) = 100
   \<and> settled (parallelUpload example_env 0 (round_robin 22)) = Some (Inr ())
   \<and> completedChunks (parallelUpload example_env 0 (round_robin 22)) = 0
   \<and> progress (trace (parallelUpload example_env 0 (round_robin 22))) = []"
proof -
  let ?s = "parallelUpload example_env 8 (round_robin 38)"
  let ?z = "parallelUpload example_env 0 (round_robin 22)"
  have cb: "onProgress example_env" and ok: "\<forall>i < 8. chunk_ok example_env i"
    and ok0: "\<forall>i < 0. chunk_ok example_env i"
    by (simp_all add: example_env_def)
  have res: "settled ?s = Some (Inr ())"
    using round_robin_completes [OF ok] by simp
  have res0: "settled ?z = Some (Inr ())"
    using round_robin_completes [OF ok0] by simp
  have small: "(8 :: nat) \<le> 2 ^ 44" by simp
  note t = parallelUpload_progress [of example_env 8 "round_robin 38", unfolded Let_def]
  from t res cb small
  have n: "completedChunks ?s = 8"
    and pr: "progress (trace ?s) = map (percentage 8) [1..<Suc (completedChunks ?s)]"
    and near: "\<forall>j < length (progress (trace ?s)).
         \<bar>rat_of_int (progress (trace ?s) ! j) - 100 * of_nat (Suc j) / of_nat 8\<bar> \<le> 1 / 2"
    by blast+
  have "[1..<Suc 8] = [1, 2, 3, 4, 5, 6, 7, 8]" by (simp add: upt_rec)
  with pr n have v: "progress (trace ?s) = [13, 25, 38, 50, 63, 75, 88, 100]"
    by (simp add: percentage_eighths)
  from v have "0 < length (progress (trace ?s))" by simp
  with near have n0: "\<bar>rat_of_int (progress (trace ?s) ! 0) - 100 * of_nat (Suc 0) / of_nat 8\<bar> \<le> 1 / 2"
    by blast
  from parallelUpload_progress [of example_env 0 "round_robin 22"]
  have z: "completedChunks ?z = 0" "progress (trace ?z) = []"
    by (simp_all add: Let_def)
  from res n v n0 res0 z show ?thesis by simp
qed

text \<open>
  C9 as stated fails: in a fulfilled upload of 40 chunks the 23rd call of the callback
  reports 57, while \<open>23 / 40 * 100\<close> is \<open>57.5\<close> and rounds to 58; and a fulfilled upload of
  no chunk reports nothing, so there is no immediate 100.
\<close>

theorem parallelUpload_progress_not_rounded:
  "settled (parallelUpload example_env 40 (round_robin 102)) = Some (Inr ())
   \<and> progress (trace (parallelUpload example_env 40 (round_robin 102))) ! 22 = 57
   \<and> round (23 / 40 * 100 :: rat) = 58
   \<and> settled (parallelUpload example_env 0 (round_robin 22)) = Some (Inr ())
   \<and> progress (trace (parallelUpload example_env 0 (round_robin 22))) = []"
proof -
  let ?s = "parallelUpload example_env 40 (round_robin 102)"
  let ?z = "parallelUpload example_env 0 (round_robin 22)"
  have cb: "onProgress example_env" and ok: "\<forall>i < 40. chunk_ok example_env i"
    and ok0: "\<forall>i < 0. chunk_ok example_env i"
    by (simp_all add: example_env_def)
  have res: "settled ?s = Some (Inr ())"
    using round_robin_completes [OF ok] by simp
  have res0: "settled ?z = Some (Inr ())"
    using round_robin_completes [OF ok0] by simp
  have n: "completedChunks ?s = 40" using res by (rule parallelUpload_resolved(3))
  have "progress (trace ?s) ! 22 = percentage 40 ([1..<41] ! 22)"
    using cb by (simp add: progress_list n del: upt_Suc)
  also have "[1..<41] ! 22 = (23 :: nat)" by simp
  finally have v: "progress (trace ?s) ! 22 = 57" by (simp add: percentage_40_23)
  have r: "round (23 / 40 * 100 :: rat) = 58" by (simp add: round_def floor_rat_numeral)
  have z: "progress (trace ?z) = []"
    using completedChunks_le [of example_env 0 "round_robin 22"] by (simp add: progress_list)
  from res v r res0 z show ?thesis by simp
qed

subsection \<open>putFile\<close>

lemma double_0: "double 0 = 0"
  by (simp add: double_def)

lemma createFileChunks_empty: "createFileChunks 0 default_chunkSize = Some []"
  using chunk_loop_finite [of 0 0 0 default_chunkSize "[]"]
  by (simp add: createFileChunks_def totalChunks_def default_chunkSize_def double_0 Math_ceil_def
      zero_enat_def)

lemma processFileForUpload_empty:
  "processFileForUpload env [] = (Some (Inl EmptyChunks), [BuildInvoked []])"
  by (simp add: processFileForUpload_def createFileChunks_empty build_def)

lemma putFile_empty:
  "path \<noteq> [] \<Longrightarrow> putFile env path [] schedule = (Some (Inl EmptyChunks), [BuildInvoked []])"
  by (simp add: putFile_def processFileForUpload_empty)

text \<open>
  C4, as the code has it. \<open>putFile\<close> has no check of its own for an empty file. With a
  non-empty path, a file of zero bytes gives zero chunks and zero digests,
  \<open>BlobHashTree.build\<close> is called with the empty list, and it is its guard that throws
  \<open>Cannot build hash tree from empty chunks\<close>; nothing is sent to the gateway or to the
  registry.
\<close>

theorem putFile_empty_file:
  assumes "path \<noteq> []"
  shows "putFile env path [] schedule = (Some (Inl EmptyChunks), [BuildInvoked []])"
  using assms by (rule putFile_empty)

theorem putFile_empty_file_witness:
  "''quadtree.png'' \<noteq> []
   \<and> putFile example_env ''quadtree.png'' [] (round_robin 1) = (Some (Inl EmptyChunks), [BuildInvoked []])"
  using putFile_empty_file [of "''quadtree.png''" example_env "round_robin 1"] by simp

text \<open>
  C4 as stated fails: for a file of zero bytes the builder is invoked, and the error is the
  builder's.
\<close>

theorem putFile_empty_file_invokes_build:
  "putFile example_env ''a.png'' [] [] = (Some (Inl EmptyChunks), [BuildInvoked []])
   \<and> BuildInvoked [] \<in> set (snd (putFile example_env ''a.png'' [] []))"
  by (simp add: putFile_empty)

lemma registered_trace_step:
  "registered (trace (step env n s w)) = registered (trace s)"
proof (cases "w < length (workers s)")
  case True
  then show ?thesis
    by (cases "phase (workers s ! w)") (simp_all add: trace_step registered_append)
next
  case False
  then show ?thesis by (simp add: step_out_of_range)
qed

lemma registered_parallelUpload: "registered (trace (parallelUpload env n sched)) = []"
  by (induction sched rule: rev_induct)
     (simp_all add: parallelUpload_Nil parallelUpload_snoc registered_trace_step trace_initial)

lemma processFileForUpload_trace:
  "processFileForUpload env file = (r, t) \<Longrightarrow> registered t = [] \<and> uploaded t = []"
  by (auto simp: processFileForUpload_def split: option.splits sum.splits)

lemma processFileForUpload_Inr:
  "processFileForUpload env file = (Some (Inr (chunks, hs, bt)), t) \<Longrightarrow> t = [BuildInvoked hs]"
  by (auto simp: processFileForUpload_def split: option.splits sum.splits)

lemma getDirectURL_trace: "getDirectURL env path = (r, t) \<Longrightarrow> registered t = [] \<and> uploaded t = []"
  by (auto simp: getDirectURL_def split: if_splits option.splits)

lemma getDirectURL_error: "path \<noteq> [] \<Longrightarrow> getDirectURL env path = (Inl e, t) \<Longrightarrow> e = ActorRejected"
  by (auto simp: getDirectURL_def split: if_splits option.splits)


lemma parallelUpload_all_ok:
  assumes "settled (parallelUpload env n schedule) = Some (Inr ())"
  shows "\<forall>i < n. chunk_ok env i"
proof (intro allI impI)
  fix i assume "i < n"
  with parallelUpload_resolved(2) [OF assms] have "i \<in> set (uploaded (trace (parallelUpload env n schedule)))"
    by simp
  with parallelUpload_invariants [of n env schedule] show "chunk_ok env i"
    by (simp add: uploaded_inv_def)
qed

text \<open>
  C5. Whatever the environment and the schedule: when \<open>putFile\<close> stays pending or fails with
  anything but a rejection by the actor itself (hashing, the builder, the upload of the blob
  tree, a chunk upload, the path check), \<open>registerFileReference\<close> has not been called. When
  it has been called, the blob tree was accepted, every chunk upload succeeded, the call is
  the only one, it registers the path with the tagged root digest, and every chunk was
  uploaded before it.
\<close>

theorem putFile_register_after_uploads:
  assumes run: "putFile env path file schedule = (r, t)"
  shows "((r = None \<or> (\<exists>e. r = Some (Inl e) \<and> e \<noteq> ActorRejected)) \<longrightarrow> registered t = [])
    \<and> (registered t \<noteq> [] \<longrightarrow>
         blob_tree_ok env
         \<and> (\<exists>chunks hs bt before after.
               processFileForUpload env file = (Some (Inr (chunks, hs, bt)), [BuildInvoked hs])
               \<and> (\<forall>i < length chunks. chunk_ok env i)
               \<and> t = before @ RegisterFileReference path (toShaString (hash (tree bt))) # after
               \<and> set (uploaded before) = {0..<length chunks}
               \<and> registered before = [] \<and> registered after = [] \<and> uploaded after = []))"
    (is "?fail \<and> ?reg")
proof (cases "path = []")
  case True
  with run show ?thesis by (auto simp: putFile_def)
next
  case path: False
  obtain pr t1 where pf: "processFileForUpload env file = (pr, t1)"
    by (cases "processFileForUpload env file")
  from processFileForUpload_trace [OF pf] have t1: "registered t1 = []" "uploaded t1 = []" by simp_all
  show ?thesis
  proof (cases pr)
    case None
    with run path pf t1 show ?thesis by (auto simp: putFile_def)
  next
    case (Some res)
    show ?thesis
    proof (cases res)
      case (Inl e)
      with Some run path pf t1 show ?thesis by (auto simp: putFile_def)
    next
      case (Inr x)
      obtain chunks hs bt where x: "x = (chunks, hs, bt)" by (cases x)
      from pf Some Inr x have pf': "processFileForUpload env file = (Some (Inr (chunks, hs, bt)), t1)"
        by simp
      from processFileForUpload_Inr [OF pf'] have t1_eq: "t1 = [BuildInvoked hs]" .
      let ?t2 = "t1 @ [UploadBlobTree bt (length file)]"
      let ?s = "parallelUpload env (length chunks) schedule"
      let ?t3 = "?t2 @ trace ?s"
      let ?h = "toShaString (hash (tree bt))"
      have t3: "registered ?t3 = []"
        by (simp add: registered_append t1 registered_parallelUpload)
      show ?thesis
      proof (cases "blob_tree_ok env")
        case False
        with run path pf' t1 show ?thesis
          by (auto simp: putFile_def Let_def registered_append)
      next
        case tree_ok: True
        show ?thesis
        proof (cases "settled ?s")
          case None
          with run path pf' tree_ok have "r = None" "t = ?t3" by (simp_all add: putFile_def Let_def)
          with t3 show ?thesis by simp
        next
          case (Some out)
          show ?thesis
          proof (cases out)
            case (Inl e)
            with Some run path pf' tree_ok have "t = ?t3" by (simp add: putFile_def Let_def)
            with t3 show ?thesis by simp
          next
            case (Inr u)
            with Some have res: "settled ?s = Some (Inr ())" by simp
            have up: "set (uploaded ?t3) = {0..<length chunks}"
              using parallelUpload_resolved(2) [OF res] by (simp add: uploaded_append t1)
            have ok: "\<forall>i < length chunks. chunk_ok env i"
              using res by (rule parallelUpload_all_ok)
            obtain g t5 where g: "getDirectURL env path = (g, t5)" by (cases "getDirectURL env path")
            from getDirectURL_trace [OF g] have t5: "registered t5 = []" "uploaded t5 = []" by simp_all
            define after where "after = (if register_ok env then t5 else [])"
            have t: "t = ?t3 @ RegisterFileReference path ?h # after"
              using run path pf' tree_ok res g
              by (cases g) (auto simp: putFile_def Let_def after_def)
            have after: "registered after = []" "uploaded after = []"
              using t5 by (simp_all add: after_def)
            have "e = ActorRejected" if "r = Some (Inl e)" for e
              using that run path pf' tree_ok res g getDirectURL_error [OF path, of env e t5]
              by (cases g) (auto simp: putFile_def Let_def split: if_splits)
            moreover have "r \<noteq> None"
              using run path pf' tree_ok res g
              by (cases g) (auto simp: putFile_def Let_def split: if_splits)
            ultimately have fail: ?fail by auto
            have ?reg
              using tree_ok pf' t1_eq ok t up t3 after by blast
            with fail show ?thesis by simp
          qed
        qed
      qed
    qed
  qed
qed


lemma five_chunks:
  "createFileChunks 5242880 default_chunkSize =
     Some [(0, 1048576), (1048576, 2097152), (2097152, 3145728), (3145728, 4194304), (4194304, 5242880)]"
proof -
  have "[0..<5] = [0, 1, 2, 3, 4::nat]" by (simp add: upt_rec)
  then show ?thesis
    using createFileChunks_eq [of 5242880 default_chunkSize]
    by (simp add: default_chunkSize_def)
qed

lemma injected_settled:
  "settled (parallelUpload injected_env (Suc (Suc (Suc (Suc (Suc 0))))) (round_robin 6)) =
     Some (Inl (ChunkUploadFailed 2))"
  by code_simp

lemma one_chunk: "createFileChunks (Suc (Suc (Suc 0))) default_chunkSize = Some [(0, 3)]"
proof -
  have "createFileChunks 3 default_chunkSize = Some [(0, 3)]"
    using createFileChunks_eq [of 3 default_chunkSize] by (simp add: default_chunkSize_def)
  then show ?thesis by (simp add: numeral_3_eq_3)
qed

lemma quiet_pool:
  "settled (parallelUpload (example_env\<lparr>onProgress := False\<rparr>) (Suc 0) (round_robin 3)) = Some (Inr ())"
  "trace (parallelUpload (example_env\<lparr>onProgress := False\<rparr>) (Suc 0) (round_robin 3)) =
     [UploadChunk 0 0, Uploaded 0]"
  by code_simp+

lemma quiet_sha:
  "toShaString (YHash [3, 144, 88, 198, 242, 192, 203, 73, 44, 83, 59, 10, 77, 20, 239, 119, 204, 15, 120, 171, 204, 206, 213, 40, 125, 132, 161, 162, 1, 28, 251, 129]) =
     ''sha256:039058c6f2c0cb492c533b0a4d14ef77cc0f78abccced5287d84a1a2011cfb81''"
  by code_simp

lemma putFile_quiet:
  "putFile (example_env\<lparr>onProgress := False\<rparr>) ''a.png'' [1, 2, 3] (round_robin 3) =
     (Some (Inr \<lparr>result_path = ''a.png'',
                  result_hash = ''sha256:039058c6f2c0cb492c533b0a4d14ef77cc0f78abccced5287d84a1a2011cfb81'',
                  result_url = ''https://gateway/blob?blob_hash=sha256:00&owner_id=owner''\<rparr>),
      [BuildInvoked [YHash (sha256 [1, 2, 3])],
       UploadBlobTree \<lparr>tree_type = BMT, chunk_hashes = [YHash (sha256 [1, 2, 3])],
                         tree = TreeNode (YHash (sha256 [1, 2, 3])) None None\<rparr> 3,
       UploadChunk 0 0, Uploaded 0,
       RegisterFileReference ''a.png'' ''sha256:039058c6f2c0cb492c533b0a4d14ef77cc0f78abccced5287d84a1a2011cfb81'',
       GetFileReference ''a.png''])"
proof -
  let ?E = "example_env\<lparr>onProgress := False\<rparr>"
  have E: "digest ?E = sha256" "blob_tree_ok ?E" "register_ok ?E" "file_reference ?E = (\<lambda>path. Some ''sha256:00'')"
    "storageGatewayUrl ?E = ''https://gateway''" "owner ?E = ''owner''" "encodeURIComponent ?E = (\<lambda>s. s)"
    by (simp_all add: example_env_def)
  have len: "length (sha256 [1, 2, 3]) = 32" using sha256_length by simp
  have pf: "processFileForUpload ?E [1, 2, 3] =
      (Some (Inr ([(0, 3)], [YHash (sha256 [1, 2, 3])],
         \<lparr>tree_type = BMT, chunk_hashes = [YHash (sha256 [1, 2, 3])],
           tree = TreeNode (YHash (sha256 [1, 2, 3])) None None\<rparr>)), [BuildInvoked [YHash (sha256 [1, 2, 3])]])"
    by (simp add: processFileForUpload_def one_chunk E fromBytes_def new_YHash_def arrayBuffer_def len
        build_one)
  have sha: "toShaString (YHash (sha256 [1, 2, 3])) = ''sha256:039058c6f2c0cb492c533b0a4d14ef77cc0f78abccced5287d84a1a2011cfb81''"
    by (simp only: sha256_123 quiet_sha)
  show ?thesis
    by (simp add: putFile_def pf E quiet_pool sha getDirectURL_def Let_def)
qed

theorem putFile_register_after_uploads_witness:
  "fst (putFile injected_env ''a.png'' (replicate 5242880 0) (round_robin 6)) = Some (Inl (ChunkUploadFailed 2))
   \<and> registered (snd (putFile injected_env ''a.png'' (replicate 5242880 0) (round_robin 6))) = []
   \<and> registered (snd (putFile (example_env\<lparr>onProgress := False\<rparr>) ''a.png'' [1, 2, 3] (round_robin 3))) =
       [(''a.png'', ''sha256:039058c6f2c0cb492c533b0a4d14ef77cc0f78abccced5287d84a1a2011cfb81'')]
   \<and> uploaded (snd (putFile (example_env\<lparr>onProgress := False\<rparr>) ''a.png'' [1, 2, 3] (round_robin 3))) = [0]
   \<and> blob_tree_ok (example_env\<lparr>onProgress := False\<rparr>)
   \<and> chunk_ok (example_env\<lparr>onProgress := False\<rparr>) 0"
proof -
  let ?file = "replicate 5242880 0 :: byte list"
  let ?h = "YHash (replicate 32 0)"
  let ?E = "example_env\<lparr>onProgress := False\<rparr>"
  obtain r t where run: "putFile injected_env ''a.png'' ?file (round_robin 6) = (r, t)"
    by (cases "putFile injected_env ''a.png'' ?file (round_robin 6)")
  have d: "digest injected_env = (\<lambda>data. replicate 32 0)" and tree_ok: "blob_tree_ok injected_env"
    by (simp_all add: injected_env_def example_env_def)
  obtain bt where bt: "build (\<lambda>data. replicate 32 0) [?h, ?h, ?h, ?h, ?h] = Inr bt"
    using build_32 [of "\<lambda>data. replicate 32 0" "[?h, ?h, ?h, ?h, ?h]"] by auto
  have pf: "processFileForUpload injected_env ?file =
      (Some (Inr ([(0, 1048576), (1048576, 2097152), (2097152, 3145728), (3145728, 4194304), (4194304, 5242880)],
         [?h, ?h, ?h, ?h, ?h], bt)), [BuildInvoked [?h, ?h, ?h, ?h, ?h]])"
    using five_chunks by (simp add: processFileForUpload_def d bt fromBytes_def new_YHash_def)
  have r: "r = Some (Inl (ChunkUploadFailed 2))"
    using run by (simp add: putFile_def pf tree_ok injected_settled Let_def)
  with putFile_register_after_uploads [OF run] have none: "registered t = []" by simp
  have reg: "registered (snd (putFile ?E ''a.png'' [1, 2, 3] (round_robin 3))) =
      [(''a.png'', ''sha256:039058c6f2c0cb492c533b0a4d14ef77cc0f78abccced5287d84a1a2011cfb81'')]"
    and upl: "uploaded (snd (putFile ?E ''a.png'' [1, 2, 3] (round_robin 3))) = [0]"
    by (simp_all add: putFile_quiet)
  from reg putFile_register_after_uploads [OF putFile_quiet]
  have "blob_tree_ok ?E"
    and "\<exists>chunks hs bt. processFileForUpload ?E [1, 2, 3] = (Some (Inr (chunks, hs, bt)), [BuildInvoked hs])
           \<and> (\<forall>i < length chunks. chunk_ok ?E i)"
    by (simp, simp, blast)
  moreover have "chunk_ok ?E 0" by (simp add: example_env_def)
  ultimately show ?thesis using r none run reg upl by simp
qed

end
